theory Spec2Isabelle
  imports Main "HOL-Library.AList" "HOL-Library.Char_ord" "HOL-Library.List_Lexorder"
    "HOL-Library.Multiset"
begin

section \<open>The Output panel: channels over a text model\<close>

text \<open>
  The development follows \<^verbatim>\<open>packages/output/src/common/output-channel.ts\<close>. An
  \<^verbatim>\<open>OutputChannel\<close> appends text to a Monaco text model and trims the model to a
  maximum number of lines; the \<^verbatim>\<open>OutputChannelManager\<close> keeps the registry of channels,
  their resources and the selected channel.

  Exceptions are values. A function that can throw after it has already changed the state
  returns \<open>Inl (e, s)\<close> with the state \<open>s\<close> reached when \<open>e\<close> was thrown, and \<open>Inr s\<close>
  when it returns normally.
\<close>

datatype error =
    IllegalLineNumber   \<comment> \<open>\<^verbatim>\<open>Error('Illegal value for lineNumber')\<close> of the text model\<close>
  | ExpectedOutputScheme  \<comment> \<open>\<^verbatim>\<open>Expected 'output' URI scheme\<close> of \<^verbatim>\<open>resolve\<close>\<close>
  | NoOutputResource  \<comment> \<open>\<^verbatim>\<open>No output resource was registered with URI\<close> of \<^verbatim>\<open>resolve\<close>\<close>

subsection \<open>The text model of the host editor\<close>

text \<open>
  Modelled from the spec: \<^verbatim>\<open>monaco.editor.ITextModel\<close>, the text-editing engine that the
  spec names as a collaborator of the host, is missing from the sources. The model below
  keeps what the channel relies on: the text as one string whose lines are
  separated by the line feed (the model's end-of-line sequence, \<^verbatim>\<open>getEOL\<close>), one-based
  line numbers and columns, positions clamped into the text when an edit or a decoration
  is applied, line queries that throw on a line number outside the text, and decorations
  that the model tracks by their start and end offsets. Text passed to an edit is taken to use
  the line feed as its only line break.
\<close>

definition LF :: char where
  "LF = CHR 0x0A"

fun splitLines :: "string \<Rightarrow> string list" where
  "splitLines [] = [[]]"
| "splitLines (c # cs) =
     (if c = LF then [] # splitLines cs
      else (c # hd (splitLines cs)) # tl (splitLines cs))"

fun joinLines :: "string list \<Rightarrow> string" where
  "joinLines [] = []"
| "joinLines [l] = l"
| "joinLines (l # ls) = l @ LF # joinLines ls"

record Range =
  startLineNumber :: int
  startColumn :: int
  endLineNumber :: int
  endColumn :: int

text \<open>\<^verbatim>\<open>new monaco.Range(..)\<close> swaps its two positions when the start lies after the end.\<close>

definition Range_new :: "int \<Rightarrow> int \<Rightarrow> int \<Rightarrow> int \<Rightarrow> Range" where
  "Range_new sl sc el ec =
     (if sl > el \<or> (sl = el \<and> sc > ec)
      then \<lparr>startLineNumber = el, startColumn = ec, endLineNumber = sl, endColumn = sc\<rparr>
      else \<lparr>startLineNumber = sl, startColumn = sc, endLineNumber = el, endColumn = ec\<rparr>)"

record ModelDecoration =
  id_dec :: nat
  startOffset :: nat
  endOffset :: nat
  inlineClassName :: string

record TextModel =
  getValue :: string
  decorations :: "ModelDecoration list"
  lastDecorationId :: nat

record EditOperation =
  range :: Range
  text_op :: "string option"   \<comment> \<open>\<open>None\<close> is \<^verbatim>\<open>null\<close>: a pure deletion\<close>
  forceMoveMarkers :: bool

definition getLinesContent :: "TextModel \<Rightarrow> string list" where
  "getLinesContent tm = splitLines (getValue tm)"

definition getLineCount :: "TextModel \<Rightarrow> int" where
  "getLineCount tm = int (length (getLinesContent tm))"

definition getEOL :: "TextModel \<Rightarrow> string" where
  "getEOL tm = [LF]"

definition validLine :: "TextModel \<Rightarrow> int \<Rightarrow> bool" where
  "validLine tm lineNumber = (1 \<le> lineNumber \<and> lineNumber \<le> getLineCount tm)"

definition getLineContent :: "TextModel \<Rightarrow> int \<Rightarrow> error + string" where
  "getLineContent tm lineNumber =
     (if validLine tm lineNumber then Inr (getLinesContent tm ! nat (lineNumber - 1))
      else Inl IllegalLineNumber)"

definition getLineMaxColumn :: "TextModel \<Rightarrow> int \<Rightarrow> error + int" where
  "getLineMaxColumn tm lineNumber =
     (case getLineContent tm lineNumber of
        Inl e \<Rightarrow> Inl e
      | Inr l \<Rightarrow> Inr (int (length l) + 1))"

definition isWhitespace :: "char \<Rightarrow> bool" where
  "isWhitespace c = (c = CHR '' '' \<or> c = CHR 0x09)"

definition firstNonWhitespaceIndex :: "string \<Rightarrow> int" where
  "firstNonWhitespaceIndex s =
     (let n = length (takeWhile isWhitespace s)
      in if n = length s then - 1 else int n)"

definition lastNonWhitespaceIndex :: "string \<Rightarrow> int" where
  "lastNonWhitespaceIndex s =
     (let n = length (takeWhile isWhitespace (rev s))
      in if n = length s then - 1 else int (length s) - 1 - int n)"

definition getLineFirstNonWhitespaceColumn :: "TextModel \<Rightarrow> int \<Rightarrow> error + int" where
  "getLineFirstNonWhitespaceColumn tm lineNumber =
     (case getLineContent tm lineNumber of
        Inl e \<Rightarrow> Inl e
      | Inr l \<Rightarrow>
          (let result = firstNonWhitespaceIndex l
           in if result = - 1 then Inr 0 else Inr (result + 1)))"

definition getLineLastNonWhitespaceColumn :: "TextModel \<Rightarrow> int \<Rightarrow> error + int" where
  "getLineLastNonWhitespaceColumn tm lineNumber =
     (case getLineContent tm lineNumber of
        Inl e \<Rightarrow> Inl e
      | Inr l \<Rightarrow>
          (let result = lastNonWhitespaceIndex l
           in if result = - 1 then Inr 0 else Inr (result + 2)))"

text \<open>
  \<^verbatim>\<open>validatePosition\<close>: a line before the first becomes the start of the text, a line
  after the last becomes the end of the text, and the column is clamped into the line.
  The result is the zero-based line index and the zero-based column index.
\<close>

definition validatePosition :: "string list \<Rightarrow> int \<Rightarrow> int \<Rightarrow> nat \<times> nat" where
  "validatePosition ls lineNumber column =
     (if lineNumber < 1 then (0, 0)
      else if lineNumber > int (length ls) then (length ls - 1, length (last ls))
      else
        (let i = nat (lineNumber - 1); maxColumn = int (length (ls ! i)) + 1
         in if column \<le> 1 then (i, 0)
            else if column \<ge> maxColumn then (i, length (ls ! i))
            else (i, nat (column - 1))))"

definition lineStartOffset :: "string list \<Rightarrow> nat \<Rightarrow> nat" where
  "lineStartOffset ls i = sum_list (map (\<lambda>l. length l + 1) (take i ls))"

definition getOffsetAt :: "TextModel \<Rightarrow> int \<Rightarrow> int \<Rightarrow> nat" where
  "getOffsetAt tm lineNumber column =
     (let ls = getLinesContent tm; (i, c) = validatePosition ls lineNumber column
      in lineStartOffset ls i + c)"

text \<open>
  How an edit moves the offset \<open>m\<close> of a decoration's end point when the text between the
  offsets \<open>s\<close> and \<open>e\<close> is replaced by \<open>n\<close> characters with \<^verbatim>\<open>forceMoveMarkers\<close>: a
  marker before the edit stays, a marker inside the replaced text moves behind the inserted
  text, a marker at or after its end is shifted by the change of length.
\<close>

definition markerAfterEdit :: "nat \<Rightarrow> nat \<Rightarrow> nat \<Rightarrow> nat \<Rightarrow> nat" where
  "markerAfterEdit s e n m =
     (if m < s then m else if m < e then s + n else m + n - (e - s))"

definition decorationAfterEdit :: "nat \<Rightarrow> nat \<Rightarrow> nat \<Rightarrow> ModelDecoration \<Rightarrow> ModelDecoration" where
  "decorationAfterEdit s e n d =
     (let s' = markerAfterEdit s e n (startOffset d); e' = markerAfterEdit s e n (endOffset d)
      in d\<lparr>startOffset := s', endOffset := (if s' > e' then s' else e')\<rparr>)"

text \<open>
  \<^verbatim>\<open>applyEdits\<close> with the single edit operation the channel passes (both calls set
  \<^verbatim>\<open>forceMoveMarkers: true\<close>).
\<close>

definition applyEdits :: "EditOperation \<Rightarrow> TextModel \<Rightarrow> TextModel" where
  "applyEdits edit tm =
     (let r = range edit;
          s = getOffsetAt tm (startLineNumber r) (startColumn r);
          e = getOffsetAt tm (endLineNumber r) (endColumn r);
          t = (case text_op edit of None \<Rightarrow> [] | Some t \<Rightarrow> t);
          v = getValue tm
      in tm\<lparr>getValue := take s v @ t @ drop e v,
            decorations := map (decorationAfterEdit s e (length t)) (decorations tm)\<rparr>)"

text \<open>
  \<^verbatim>\<open>deltaDecorations(oldDecorations, newDecorations)\<close> removes the decorations with the
  given ids, adds the new ones under fresh ids and returns the new ids.
\<close>

fun addDecorations :: "(Range \<times> string) list \<Rightarrow> TextModel \<Rightarrow> nat list \<times> TextModel" where
  "addDecorations [] tm = ([], tm)"
| "addDecorations ((r, cls) # ds) tm =
     (let newId = lastDecorationId tm + 1;
          s = getOffsetAt tm (startLineNumber r) (startColumn r);
          e = getOffsetAt tm (endLineNumber r) (endColumn r);
          d = \<lparr>id_dec = newId, startOffset = s, endOffset = e, inlineClassName = cls\<rparr>;
          (ids, tm') = addDecorations ds
                         (tm\<lparr>decorations := decorations tm @ [d], lastDecorationId := newId\<rparr>)
      in (newId # ids, tm'))"

definition deltaDecorations ::
    "nat list \<Rightarrow> (Range \<times> string) list \<Rightarrow> TextModel \<Rightarrow> nat list \<times> TextModel" where
  "deltaDecorations oldDecorations newDecorations tm =
     addDecorations newDecorations
       (tm\<lparr>decorations := filter (\<lambda>d. id_dec d \<notin> set oldDecorations) (decorations tm)\<rparr>)"

text \<open>
  \<^verbatim>\<open>getLinesDecorations(startLineNumber, endLineNumber)\<close>: the decorations that
  intersect the given lines; the line numbers are clamped into the text.
\<close>

definition getLinesDecorations :: "TextModel \<Rightarrow> int \<Rightarrow> int \<Rightarrow> ModelDecoration list" where
  "getLinesDecorations tm startLine endLine =
     (let lineCount = getLineCount tm;
          sl = min lineCount (max 1 startLine);
          el = min lineCount (max 1 endLine);
          ls = getLinesContent tm;
          intervalStart = lineStartOffset ls (nat (sl - 1));
          intervalEnd = lineStartOffset ls (nat (el - 1)) + length (ls ! nat (el - 1))
      in filter (\<lambda>d. startOffset d \<le> intervalEnd \<and> intervalStart \<le> endOffset d)
           (decorations tm))"

text \<open>\<^verbatim>\<open>setValue\<close> replaces the whole text and destroys every decoration.\<close>

definition setValue :: "string \<Rightarrow> TextModel \<Rightarrow> TextModel" where
  "setValue v tm = tm\<lparr>getValue := v, decorations := []\<rparr>"

subsection \<open>URIs of output channels\<close>

text \<open>
  Modelled from the spec: \<^verbatim>\<open>OutputUri\<close> (\<^verbatim>\<open>output-uri.ts\<close>, part of the URI
  abstraction of the spec) is missing from the sources. It is modelled by the way the
  channel and the manager use it: \<^verbatim>\<open>create\<close> builds the URI of a channel
  name under the scheme \<^verbatim>\<open>output\<close>, \<^verbatim>\<open>channelName\<close> reads the name back and
  \<^verbatim>\<open>is\<close> tests the scheme.
\<close>

record URI =
  scheme :: string
  path :: string

definition OutputUri_SCHEME :: string where
  "OutputUri_SCHEME = ''output''"

definition OutputUri_create :: "string \<Rightarrow> URI" where
  "OutputUri_create name = \<lparr>scheme = OutputUri_SCHEME, path = name\<rparr>"

definition OutputUri_is :: "URI \<Rightarrow> bool" where
  "OutputUri_is u = (scheme u = OutputUri_SCHEME)"

definition OutputUri_channelName :: "URI \<Rightarrow> string" where
  "OutputUri_channelName u = path u"

definition toString :: "URI \<Rightarrow> string" where
  "toString u = scheme u @ '':/'' @ path u"

subsection \<open>The output channel\<close>

datatype OutputChannelSeverity = Error | Warning | Info

text \<open>A task of the channel's \<^verbatim>\<open>textModifyQueue\<close>.\<close>

datatype task =
    AppendTask string OutputChannelSeverity bool   \<comment> \<open>\<^verbatim>\<open>doAppend({content, severity, eol})\<close>\<close>
  | ClearTask

record OutputResource =
  rid :: nat   \<comment> \<open>the identity of the resource object\<close>
  uri_res :: URI

record OutputChannel =
  resource :: OutputResource
  visible :: bool
  priv_maxLineNumber :: int
  decorationIds :: "nat list"   \<comment> \<open>a \<^verbatim>\<open>Set\<close>: insertion order, no duplicates\<close>
  textModifyQueue :: "task list"
  visibilityListeners :: "nat list"
     \<comment> \<open>the manager's listeners on \<^verbatim>\<open>onVisibilityChange\<close>, each with the reference of
         the channel it was registered for\<close>
  contentChanges :: nat   \<comment> \<open>how often \<^verbatim>\<open>contentChangeEmitter\<close> has fired\<close>

text \<open>The operations of a JavaScript \<^verbatim>\<open>Set\<close>.\<close>

definition set_add :: "'a \<Rightarrow> 'a list \<Rightarrow> 'a list" where
  "set_add x xs = (if x \<in> set xs then xs else xs @ [x])"

definition set_delete :: "'a \<Rightarrow> 'a list \<Rightarrow> 'a list" where
  "set_delete x xs = filter (\<lambda>y. y \<noteq> x) xs"

definition uri :: "OutputChannel \<Rightarrow> URI" where
  "uri ch = uri_res (resource ch)"

definition name :: "OutputChannel \<Rightarrow> string" where
  "name ch = OutputUri_channelName (uri ch)"

definition fireContentChange :: "OutputChannel \<Rightarrow> OutputChannel" where
  "fireContentChange ch = ch\<lparr>contentChanges := contentChanges ch + 1\<rparr>"

type_synonym channel_state = "OutputChannel \<times> TextModel"

definition ensureMaxChannelHistory ::
    "channel_state \<Rightarrow> (error \<times> channel_state) + channel_state" where
  "ensureMaxChannelHistory st =
     (case st of (ch, textModel) \<Rightarrow>
        let ch0 = fireContentChange ch;
            linesToRemove = getLineCount textModel - priv_maxLineNumber ch0 - 1
        in if linesToRemove > 0 then
             (case getLineMaxColumn textModel linesToRemove of
                Inl e \<Rightarrow> Inl (e, (ch0, textModel))
              | Inr endCol \<Rightarrow>
                  let rng = Range_new 1 1 linesToRemove (endCol + 1);
                      decorationsToRemove =
                        map id_dec
                          (filter (\<lambda>d. id_dec d \<in> set (decorationIds ch0))
                             (getLinesDecorations textModel
                                (startLineNumber rng) (endLineNumber rng)));
                      (ch1, tm1) =
                        (if decorationsToRemove \<noteq> [] then
                           (let (newIds, tm') = deltaDecorations decorationsToRemove [] textModel
                            in (ch0\<lparr>decorationIds :=
                                       fold set_delete decorationsToRemove
                                         (fold set_add newIds (decorationIds ch0))\<rparr>, tm'))
                         else (ch0, textModel))
                  in (case getLineFirstNonWhitespaceColumn tm1 (linesToRemove + 1) of
                        Inl e \<Rightarrow> Inl (e, (ch1, tm1))
                      | Inr column \<Rightarrow>
                          Inr (ch1,
                               applyEdits
                                 \<lparr>range = Range_new 1 1 (linesToRemove + 1) column,
                                  text_op = None, forceMoveMarkers = True\<rparr> tm1)))
           else Inr (ch0, textModel))"

definition doAppend ::
    "string \<Rightarrow> OutputChannelSeverity \<Rightarrow> bool \<Rightarrow> channel_state
       \<Rightarrow> (error \<times> channel_state) + channel_state" where
  "doAppend content severity eol st =
     (case st of (ch, textModel) \<Rightarrow>
        let lastLine = getLineCount textModel
        in (case getLineMaxColumn textModel lastLine of
              Inl e \<Rightarrow> Inl (e, (ch, textModel))
            | Inr lastLineMaxColumn \<Rightarrow>
                let rng = Range_new lastLine lastLineMaxColumn lastLine lastLineMaxColumn;
                    tm1 = applyEdits
                            \<lparr>range = rng,
                             text_op = Some (if eol then content @ getEOL textModel else content),
                             forceMoveMarkers = True\<rparr> textModel;
                    decorated =
                      (if severity \<noteq> Info then
                         (let inlineClassName =
                                (if severity = Error then ''theia-output-error''
                                 else ''theia-output-warning'');
                              lineCount1 = getLineCount tm1
                          in (case getLineFirstNonWhitespaceColumn tm1 lineCount1 of
                                Inl e \<Rightarrow> Inl (e, (ch, tm1))
                              | Inr firstNonWhitespace \<Rightarrow>
                                  let endLine =
                                        (if firstNonWhitespace = 0 then lineCount1 - 1
                                         else lineCount1)
                                  in (case getLineLastNonWhitespaceColumn tm1 endLine of
                                        Inl e \<Rightarrow> Inl (e, (ch, tm1))
                                      | Inr endCol \<Rightarrow>
                                          let newDecorations =
                                                [(Range_new (startLineNumber rng)
                                                    (startColumn rng) endLine endCol,
                                                  inlineClassName)];
                                              (newIds, tm2) =
                                                deltaDecorations [] newDecorations tm1
                                          in Inr (ch\<lparr>decorationIds :=
                                                       fold set_add newIds (decorationIds ch)\<rparr>,
                                                  tm2))))
                       else Inr (ch, tm1))
                in (case decorated of
                      Inl err \<Rightarrow> Inl err
                    | Inr st2 \<Rightarrow>
                        (case ensureMaxChannelHistory st2 of
                           Inl err \<Rightarrow> Inl err
                         | Inr (ch3, tm3) \<Rightarrow> Inr (fireContentChange ch3, tm3)))))"

definition doClear :: "channel_state \<Rightarrow> channel_state" where
  "doClear st =
     (case st of (ch, textModel) \<Rightarrow>
        let (newIds, tm1) = deltaDecorations (decorationIds ch) [] textModel
        in (fireContentChange (ch\<lparr>decorationIds := []\<rparr>), setValue [] tm1))"

text \<open>
  \<^verbatim>\<open>append\<close>, \<^verbatim>\<open>appendLine\<close> and \<^verbatim>\<open>clear\<close> only add a task to the queue; the
  setter of \<^verbatim>\<open>maxLineNumber\<close> stores the new maximum and appends the empty string.
\<close>

definition append :: "string \<Rightarrow> OutputChannelSeverity \<Rightarrow> OutputChannel \<Rightarrow> OutputChannel" where
  "append content severity ch =
     ch\<lparr>textModifyQueue := textModifyQueue ch @ [AppendTask content severity False]\<rparr>"

definition appendLine :: "string \<Rightarrow> OutputChannelSeverity \<Rightarrow> OutputChannel \<Rightarrow> OutputChannel" where
  "appendLine content severity ch =
     ch\<lparr>textModifyQueue := textModifyQueue ch @ [AppendTask content severity True]\<rparr>"

definition clear :: "OutputChannel \<Rightarrow> OutputChannel" where
  "clear ch = ch\<lparr>textModifyQueue := textModifyQueue ch @ [ClearTask]\<rparr>"

definition set_maxLineNumber :: "int \<Rightarrow> OutputChannel \<Rightarrow> OutputChannel" where
  "set_maxLineNumber maxLineNumber ch =
     append [] Info (ch\<lparr>priv_maxLineNumber := maxLineNumber\<rparr>)"

text \<open>
  The listener on \<^verbatim>\<open>preferences.onPreferenceChanged\<close>. The default of the preference
  comes from \<^verbatim>\<open>OutputConfigSchema\<close>, which is missing from the sources, so it is the
  parameter \<open>dflt\<close>. A new value that JavaScript takes for false (\<^verbatim>\<open>undefined\<close>, \<open>0\<close>) gives
  the default.
\<close>

definition onPreferenceChanged ::
    "int \<Rightarrow> string \<Rightarrow> int option \<Rightarrow> OutputChannel \<Rightarrow> OutputChannel" where
  "onPreferenceChanged dflt preferenceName newValue ch =
     (if preferenceName = ''output.maxChannelHistory'' then
        (let maxLineNumber =
               (case newValue of None \<Rightarrow> dflt | Some v \<Rightarrow> if v \<noteq> 0 then v else dflt)
         in if priv_maxLineNumber ch \<noteq> maxLineNumber then set_maxLineNumber maxLineNumber ch
            else ch)
      else ch)"

text \<open>
  The queue runs one task at a time, in the order of submission. A task that throws leaves
  the state it had reached (\<open>stateAfter\<close>); the queue goes on with the next task.
  \<open>runQueue\<close> runs every task that is pending.
\<close>

definition stateAfter :: "(error \<times> 's) + 's \<Rightarrow> 's" where
  "stateAfter r = (case r of Inl (e, s) \<Rightarrow> s | Inr s \<Rightarrow> s)"

definition runTask :: "task \<Rightarrow> channel_state \<Rightarrow> (error \<times> channel_state) + channel_state" where
  "runTask t st =
     (case t of
        AppendTask content severity eol \<Rightarrow> doAppend content severity eol st
      | ClearTask \<Rightarrow> Inr (doClear st))"

definition runNext :: "channel_state \<Rightarrow> channel_state" where
  "runNext st =
     (case st of (ch, textModel) \<Rightarrow>
        (case textModifyQueue ch of
           [] \<Rightarrow> st
         | t # ts \<Rightarrow> stateAfter (runTask t (ch\<lparr>textModifyQueue := ts\<rparr>, textModel))))"

definition runQueue :: "channel_state \<Rightarrow> channel_state" where
  "runQueue st = (runNext ^^ length (textModifyQueue (fst st))) st"

subsection \<open>The channel manager\<close>

text \<open>
  Channels are objects: the manager's map and its selected channel hold references to them,
  and \<^verbatim>\<open>show\<close> and \<^verbatim>\<open>hide\<close> change a channel in place. The store \<open>heap\<close> maps a
  reference to its object. A JavaScript \<^verbatim>\<open>Map\<close> is an association list in insertion order
  (\<open>map_of\<close>, \<open>AList.update\<close>, \<open>AList.delete\<close>).
\<close>

datatype event =
    ChannelAdded string
  | ChannelDeleted string
  | SelectedChannelChanged "string option"

text \<open>The entries of a \<^verbatim>\<open>DisposableCollection\<close> that \<^verbatim>\<open>registerListener\<close> fills.\<close>

datatype disposable =
    DisposeChannel nat   \<comment> \<open>the channel itself\<close>
  | DisposeVisibilityListener nat   \<comment> \<open>the subscription to \<^verbatim>\<open>onVisibilityChange\<close>\<close>
  | DisposeResource nat   \<comment> \<open>the closure that removes the channel's resource\<close>

record OutputChannelManager =
  heap :: "nat \<Rightarrow> OutputChannel option"
  nextRef :: nat   \<comment> \<open>the next fresh object identity\<close>
  channels :: "(string \<times> nat) list"
  resources :: "(string \<times> OutputResource) list"
  priv_selectedChannel :: "nat option"
  toDisposeOnChannelDeletion :: "(string \<times> disposable list) list"
  maxChannelHistory :: int   \<comment> \<open>\<^verbatim>\<open>preferences['output.maxChannelHistory']\<close>\<close>
  fired :: "event list"   \<comment> \<open>the events the three emitters have fired, oldest first\<close>
  console :: "string list"   \<comment> \<open>the warnings written to the console\<close>

definition init :: "int \<Rightarrow> OutputChannelManager" where
  "init pref =
     \<lparr>heap = (\<lambda>r. None), nextRef = 0, channels = [], resources = [],
      priv_selectedChannel = None, toDisposeOnChannelDeletion = [],
      maxChannelHistory = pref, fired = [], console = []\<rparr>"

definition getChannels :: "OutputChannelManager \<Rightarrow> nat list" where
  "getChannels m = map snd (channels m)"

definition isVisible :: "OutputChannelManager \<Rightarrow> nat \<Rightarrow> bool" where
  "isVisible m r = (case heap m r of Some ch \<Rightarrow> visible ch | None \<Rightarrow> False)"

definition getVisibleChannels :: "OutputChannelManager \<Rightarrow> nat list" where
  "getVisibleChannels m = filter (isVisible m) (getChannels m)"

definition selectedChannel :: "OutputChannelManager \<Rightarrow> nat option" where
  "selectedChannel m = priv_selectedChannel m"

definition nameOf :: "OutputChannelManager \<Rightarrow> nat \<Rightarrow> string option" where
  "nameOf m r = map_option name (heap m r)"

definition set_selectedChannel ::
    "nat option \<Rightarrow> OutputChannelManager \<Rightarrow> OutputChannelManager" where
  "set_selectedChannel channel m =
     m\<lparr>priv_selectedChannel := channel,
       fired := fired m @ [SelectedChannelChanged (Option.bind channel (nameOf m))]\<rparr>"

text \<open>\<^verbatim>\<open>this.getVisibleChannels()[0]\<close>: the first visible channel, or \<^verbatim>\<open>undefined\<close>.\<close>

definition firstVisibleChannel :: "OutputChannelManager \<Rightarrow> nat option" where
  "firstVisibleChannel m = (case getVisibleChannels m of [] \<Rightarrow> None | r # rs \<Rightarrow> Some r)"

text \<open>The listener that \<^verbatim>\<open>registerListener\<close> puts on \<^verbatim>\<open>onVisibilityChange\<close>.\<close>

definition visibilityListener ::
    "nat \<Rightarrow> bool \<Rightarrow> OutputChannelManager \<Rightarrow> OutputChannelManager" where
  "visibilityListener outputChannel isVis m =
     (if isVis then set_selectedChannel (Some outputChannel) m
      else if Some outputChannel = selectedChannel m
           then set_selectedChannel (firstVisibleChannel m) m
      else m)"

definition setVisibility :: "nat \<Rightarrow> bool \<Rightarrow> OutputChannelManager \<Rightarrow> OutputChannelManager" where
  "setVisibility r isVis m =
     (case heap m r of
        None \<Rightarrow> m
      | Some ch \<Rightarrow>
          fold (\<lambda>l. visibilityListener l isVis) (visibilityListeners ch)
            (m\<lparr>heap := (heap m)(r \<mapsto> ch\<lparr>visible := isVis\<rparr>)\<rparr>))"

definition hide :: "nat \<Rightarrow> OutputChannelManager \<Rightarrow> OutputChannelManager" where
  "hide r m = setVisibility r False m"

definition show_channel :: "nat \<Rightarrow> OutputChannelManager \<Rightarrow> OutputChannelManager" where
  "show_channel r m = setVisibility r True m"

definition registerListener :: "nat \<Rightarrow> OutputChannelManager \<Rightarrow> OutputChannelManager" where
  "registerListener outputChannel m =
     (case heap m outputChannel of
        None \<Rightarrow> m
      | Some ch \<Rightarrow>
          let nm = name ch;
              m1 = (if selectedChannel m = None
                    then set_selectedChannel (Some outputChannel) m else m);
              toDispose = (case map_of (toDisposeOnChannelDeletion m1) nm of
                             None \<Rightarrow> [] | Some ds \<Rightarrow> ds)
          in m1\<lparr>heap := (heap m1)(outputChannel \<mapsto>
                       ch\<lparr>visibilityListeners := visibilityListeners ch @ [outputChannel]\<rparr>),
                 toDisposeOnChannelDeletion :=
                   AList.update nm
                     (toDispose @ [DisposeChannel outputChannel,
                                   DisposeVisibilityListener outputChannel,
                                   DisposeResource outputChannel])
                     (toDisposeOnChannelDeletion m1)\<rparr>)"

definition new_OutputChannel :: "OutputResource \<Rightarrow> int \<Rightarrow> OutputChannel" where
  "new_OutputChannel res pref =
     \<lparr>resource = res, visible = True, priv_maxLineNumber = pref, decorationIds = [],
      textModifyQueue = [], visibilityListeners = [], contentChanges = 0\<rparr>"

definition createResource :: "URI \<Rightarrow> nat \<Rightarrow> OutputResource" where
  "createResource u r = \<lparr>rid = r, uri_res = u\<rparr>"

text \<open>
  \<^verbatim>\<open>channelAddedEmitter.fire(channel)\<close> runs the listener of \<^verbatim>\<open>init\<close>, which calls
  \<^verbatim>\<open>getChannel\<close> again with the name of the new channel and registers the listeners.
\<close>

function getChannel :: "string \<Rightarrow> OutputChannelManager \<Rightarrow> nat \<times> OutputChannelManager" where
  "getChannel nm m =
     (case map_of (channels m) nm of
        Some existing \<Rightarrow> (existing, m)
      | None \<Rightarrow>
          (let u = OutputUri_create nm;
               (res, m1) =
                  (case map_of (resources m) (toString u) of
                     Some res \<Rightarrow> (res, m)
                   | None \<Rightarrow>
                       (let res = createResource u (nextRef m)
                        in (res, m\<lparr>resources := AList.update (toString u) res (resources m),
                                   nextRef := nextRef m + 1\<rparr>)));
               channel = nextRef m1;
               ch = new_OutputChannel res (maxChannelHistory m1);
               m2 = m1\<lparr>heap := (heap m1)(channel \<mapsto> ch), nextRef := channel + 1,
                       channels := AList.update nm channel (channels m1)\<rparr>;
               m3 = m2\<lparr>fired := fired m2 @ [ChannelAdded (name ch)]\<rparr>;
               (listened, m4) = getChannel (name ch) m3
           in (channel, registerListener listened m4)))"
  by pat_completeness auto

definition pendingResources :: "OutputChannelManager \<Rightarrow> nat" where
  "pendingResources m =
     length (filter (\<lambda>(k, r). k \<notin> (\<lambda>n. toString (OutputUri_create n)) ` fst ` set (channels m))
               (resources m))"

lemma length_filter_mono:
  "(\<And>x. x \<in> set xs \<Longrightarrow> Q x \<Longrightarrow> P x) \<Longrightarrow> length (filter Q xs) \<le> length (filter P xs)"
  by (induction xs) auto

lemma length_filter_strict:
  "(\<And>x. x \<in> set xs \<Longrightarrow> Q x \<Longrightarrow> P x) \<Longrightarrow> y \<in> set xs \<Longrightarrow> P y \<Longrightarrow> \<not> Q y \<Longrightarrow>
   length (filter Q xs) < length (filter P xs)"
proof (induction xs)
  case Nil
  then show ?case by simp
next
  case (Cons x xs)
  have mono: "length (filter Q xs) \<le> length (filter P xs)"
    using Cons.prems(1) by (intro length_filter_mono) auto
  show ?case
  proof (cases "y = x")
    case True
    with Cons.prems mono show ?thesis by auto
  next
    case False
    with Cons.prems have "y \<in> set xs" by simp
    with Cons.IH Cons.prems have "length (filter Q xs) < length (filter P xs)" by auto
    with Cons.prems(1) [of x] show ?thesis by auto
  qed
qed

lemma update_fresh: "map_of al k = None \<Longrightarrow> AList.update k v al = al @ [(k, v)]"
  by (induction al) auto

lemma toString_create_inj [simp]:
  "toString (OutputUri_create a) = toString (OutputUri_create b) \<longleftrightarrow> a = b"
  by (simp add: toString_def OutputUri_create_def)

lemma name_new_OutputChannel [simp]:
  "name (new_OutputChannel res p) = path (uri_res res)"
  by (simp add: name_def uri_def new_OutputChannel_def OutputUri_channelName_def)

lemma pendingResources_new:
  assumes "map_of (resources m) (toString (OutputUri_create nm)) = None"
    and "resources m' = AList.update (toString (OutputUri_create nm)) res (resources m)"
    and "channels m' = AList.update nm c (channels m)"
  shows "pendingResources m' \<le> pendingResources m"
  using assms(1)
  by (auto simp: pendingResources_def assms(2,3) update_fresh dom_update
      intro!: length_filter_mono)

lemma pendingResources_old:
  assumes "map_of (resources m) (toString (OutputUri_create nm)) = Some res"
    and "map_of (channels m) nm = None"
    and "resources m' = resources m"
    and "channels m' = AList.update nm c (channels m)"
  shows "pendingResources m' < pendingResources m"
proof -
  from assms(1) have "(toString (OutputUri_create nm), res) \<in> set (resources m)"
    by (rule map_of_SomeD)
  moreover from assms(2) have "\<And>b. (nm, b) \<notin> set (channels m)"
    by (metis map_of_eq_None_iff fst_conv image_eqI)
  ultimately have "length (filter (\<lambda>(k, r). k \<notin> (\<lambda>n. toString (OutputUri_create n)) `
                      fst ` set (AList.update nm c (channels m))) (resources m))
        < length (filter (\<lambda>(k, r). k \<notin> (\<lambda>n. toString (OutputUri_create n)) `
                      fst ` set (channels m)) (resources m))"
    by (intro length_filter_strict [where y = "(toString (OutputUri_create nm), res)"])
       (auto simp: dom_update)
  then show ?thesis by (simp add: pendingResources_def assms(3,4))
qed

termination getChannel
proof (relation "measure (\<lambda>(nm, m). 2 * pendingResources m +
                     (if map_of (channels m) nm = None then 1 else 0))", goal_cases)
  case 1
  show ?case by simp
next
  case (2 nm m u xa res y channel ch m2 m3)
  have c3: "channels m3 = AList.update nm channel (channels y)"
    using 2 by simp
  have r3: "resources m3 = resources y"
    using 2 by simp
  show ?case
  proof (cases "map_of (resources m) (toString u)")
    case None
    with 2 have y: "y = m\<lparr>resources := AList.update (toString u) res (resources m),
                          nextRef := nextRef m + 1\<rparr>"
      and res: "res = createResource u (nextRef m)"
      by (simp_all add: Let_def)
    from res 2 have nm: "name ch = nm"
      by (simp add: createResource_def OutputUri_create_def)
    have "pendingResources m3 \<le> pendingResources m"
    proof (rule pendingResources_new)
      show "map_of (resources m) (toString (OutputUri_create nm)) = None"
        using None 2 by simp
      show "resources m3 = AList.update (toString (OutputUri_create nm)) res (resources m)"
        using 2 by (simp add: r3 y)
      show "channels m3 = AList.update nm channel (channels m)"
        by (simp add: c3 y)
    qed
    moreover have "map_of (channels m3) (name ch) \<noteq> None"
      by (simp add: c3 nm update_conv')
    ultimately show ?thesis using 2(1) by auto
  next
    case (Some r)
    with 2 have y: "y = m" and res: "res = r" by simp_all
    have "pendingResources m3 < pendingResources m"
    proof (rule pendingResources_old)
      show "map_of (resources m) (toString (OutputUri_create nm)) = Some r"
        using Some 2 by simp
      show "map_of (channels m) nm = None" using 2 by simp
      show "resources m3 = resources m" by (simp add: r3 y)
      show "channels m3 = AList.update nm channel (channels m)" by (simp add: c3 y)
    qed
    then show ?thesis using 2(1) by auto
  qed
qed

declare getChannel.simps [simp del]

text \<open>
  Disposing an entry of the collection. Modelled from the spec:
  \<^verbatim>\<open>OutputResource.dispose\<close> (\<^verbatim>\<open>output-resource.ts\<close>) is missing from the sources; it
  releases the text model and does not touch the manager.
\<close>

definition runDisposable :: "disposable \<Rightarrow> OutputChannelManager \<Rightarrow> OutputChannelManager" where
  "runDisposable d m =
     (case d of
        DisposeResource r \<Rightarrow>
          (case heap m r of
             None \<Rightarrow> m
           | Some ch \<Rightarrow>
               (let u = toString (uri ch)
                in (case map_of (resources m) u of
                      Some res \<Rightarrow> m\<lparr>resources := AList.delete u (resources m)\<rparr>
                    | None \<Rightarrow>
                        m\<lparr>console := console m @
                             [''Could not dispose. No resource was registered with URI: '' @ u
                                @ ''.'']\<rparr>)))
      | DisposeVisibilityListener r \<Rightarrow>
          (case heap m r of
             None \<Rightarrow> m
           | Some ch \<Rightarrow>
               m\<lparr>heap := (heap m)(r \<mapsto>
                        ch\<lparr>visibilityListeners := remove1 r (visibilityListeners ch)\<rparr>)\<rparr>)
      | DisposeChannel r \<Rightarrow>
          (case heap m r of
             None \<Rightarrow> m
           | Some ch \<Rightarrow>
               m\<lparr>heap := (heap m)(r \<mapsto> ch\<lparr>decorationIds := [], visibilityListeners := []\<rparr>)\<rparr>))"

text \<open>\<^verbatim>\<open>DisposableCollection.dispose\<close> pops the entries, last first, and disposes each.\<close>

definition dispose_collection ::
    "disposable list \<Rightarrow> OutputChannelManager \<Rightarrow> OutputChannelManager" where
  "dispose_collection ds m = fold runDisposable (rev ds) m"

text \<open>The listener of \<^verbatim>\<open>init\<close> on \<^verbatim>\<open>onChannelDeleted\<close>.\<close>

definition onChannelDeleted :: "string \<Rightarrow> OutputChannelManager \<Rightarrow> OutputChannelManager" where
  "onChannelDeleted nm m =
     (case selectedChannel m of
        None \<Rightarrow> m
      | Some sel \<Rightarrow>
          if nameOf m sel = Some nm then set_selectedChannel (firstVisibleChannel m) m else m)"

definition deleteWarning :: "string \<Rightarrow> string" where
  "deleteWarning nm =
     ''Could not delete channel '' @ [CHR 0x27] @ nm @ [CHR 0x27]
       @ ''. The channel does not exist.''"

definition deleteChannel :: "string \<Rightarrow> OutputChannelManager \<Rightarrow> OutputChannelManager" where
  "deleteChannel nm m =
     (case map_of (channels m) nm of
        None \<Rightarrow>
          m\<lparr>console := console m @ [deleteWarning nm]\<rparr>
      | Some existing \<Rightarrow>
          (let m1 = m\<lparr>channels := AList.delete nm (channels m)\<rparr>;
               m2 = (case map_of (toDisposeOnChannelDeletion m1) nm of
                       None \<Rightarrow> m1
                     | Some toDispose \<Rightarrow>
                         (let m' = dispose_collection toDispose m1
                          in m'\<lparr>toDisposeOnChannelDeletion :=
                                  AList.update nm [] (toDisposeOnChannelDeletion m')\<rparr>));
               m3 = m2\<lparr>fired := fired m2 @ [ChannelDeleted nm]\<rparr>
           in onChannelDeleted nm m3))"

definition resolve :: "URI \<Rightarrow> OutputChannelManager \<Rightarrow> error + OutputResource" where
  "resolve u m =
     (if \<not> OutputUri_is u then Inl ExpectedOutputScheme
      else (case map_of (resources m) (toString u) of
              None \<Rightarrow> Inl NoOutputResource
            | Some res \<Rightarrow> Inr res))"

text \<open>
  The operations that drive the manager: the calls \<^verbatim>\<open>getChannel(name)\<close> and
  \<^verbatim>\<open>deleteChannel(name)\<close>, and the commands \<^verbatim>\<open>OutputCommands.SHOW\<close> and
  \<^verbatim>\<open>OutputCommands.HIDE\<close> of \<^verbatim>\<open>registerCommands\<close>, which do nothing for an empty
  name.
\<close>

datatype command = GetChannel string | DeleteChannel string | Show string | Hide string

definition execute :: "command \<Rightarrow> OutputChannelManager \<Rightarrow> OutputChannelManager" where
  "execute c m =
     (case c of
        GetChannel nm \<Rightarrow> snd (getChannel nm m)
      | DeleteChannel nm \<Rightarrow> deleteChannel nm m
      | Show nm \<Rightarrow>
          (if nm \<noteq> [] then (let (r, m') = getChannel nm m in show_channel r m') else m)
      | Hide nm \<Rightarrow>
          (if nm \<noteq> [] then (let (r, m') = getChannel nm m in hide r m') else m))"

definition run :: "command list \<Rightarrow> OutputChannelManager \<Rightarrow> OutputChannelManager" where
  "run cs m = fold execute cs m"

text \<open>What the manager keeps true of a channel it has registered under a name.\<close>

definition registered :: "OutputChannelManager \<Rightarrow> string \<Rightarrow> nat \<Rightarrow> bool" where
  "registered m nm r \<longleftrightarrow>
     (\<exists>ch. heap m r = Some ch \<and> uri ch = OutputUri_create nm \<and>
           visibilityListeners ch = [r] \<and>
           map_of (toDisposeOnChannelDeletion m) nm =
             Some [DisposeChannel r, DisposeVisibilityListener r, DisposeResource r] \<and>
           map_of (resources m) (toString (OutputUri_create nm)) = Some (resource ch))"

definition unregistered :: "OutputChannelManager \<Rightarrow> string \<Rightarrow> bool" where
  "unregistered m nm \<longleftrightarrow>
     (map_of (toDisposeOnChannelDeletion m) nm = None \<or>
      map_of (toDisposeOnChannelDeletion m) nm = Some []) \<and>
     map_of (resources m) (toString (OutputUri_create nm)) = None"

definition selectedOk :: "OutputChannelManager \<Rightarrow> bool" where
  "selectedOk m \<longleftrightarrow>
     (case selectedChannel m of
        None \<Rightarrow> True
      | Some r \<Rightarrow> r \<in> set (getChannels m) \<and> isVisible m r)"

definition wellFormed :: "OutputChannelManager \<Rightarrow> bool" where
  "wellFormed m \<longleftrightarrow>
     distinct (map fst (channels m)) \<and>
     (\<forall>(nm, r) \<in> set (channels m). registered m nm r) \<and>
     (\<forall>nm. map_of (channels m) nm = None \<longrightarrow> unregistered m nm) \<and>
     (\<forall>r ch. heap m r = Some ch \<longrightarrow> r < nextRef m) \<and>
     selectedOk m"

subsection \<open>The quick pick of channels\<close>

text \<open>
  \<^verbatim>\<open>Array.prototype.sort\<close> with a comparator is a stable sort, written as an insertion sort.
\<close>

fun insert_by :: "('a \<Rightarrow> 'a \<Rightarrow> int) \<Rightarrow> 'a \<Rightarrow> 'a list \<Rightarrow> 'a list" where
  "insert_by cmp x [] = [x]"
| "insert_by cmp x (y # ys) = (if cmp x y < 0 then x # y # ys else y # insert_by cmp x ys)"

definition sort_by :: "('a \<Rightarrow> 'a \<Rightarrow> int) \<Rightarrow> 'a list \<Rightarrow> 'a list" where
  "sort_by cmp xs = foldl (\<lambda>acc x. insert_by cmp x acc) [] xs"

text \<open>
  The comparator of \<^verbatim>\<open>pick\<close>. \<^verbatim>\<open>String.prototype.localeCompare\<close> and
  \<^verbatim>\<open>String.prototype.toLocaleLowerCase\<close> belong to the JavaScript runtime and follow its
  locale: what they return is not fixed by this program, so they are parameters here, the
  collation \<open>localeCompare\<close> and the case mapping \<open>toLocaleLowerCase\<close>.
\<close>

definition compareChannels ::
  "(string \<Rightarrow> string \<Rightarrow> int) \<Rightarrow> (string \<Rightarrow> string) \<Rightarrow> OutputChannel \<Rightarrow> OutputChannel \<Rightarrow> int" where
  "compareChannels localeCompare toLocaleLowerCase left right =
     (if visible left \<noteq> visible right then (if visible left then - 1 else 1)
      else localeCompare (toLocaleLowerCase (name left)) (toLocaleLowerCase (name right)))"

datatype QuickPickItem =
    Separator string   \<comment> \<open>\<^verbatim>\<open>{ label, type: 'separator' }\<close>\<close>
  | Item string OutputChannel   \<comment> \<open>\<^verbatim>\<open>{ label, value }\<close>\<close>

text \<open>The loop of \<^verbatim>\<open>pick\<close>; \<open>prev\<close> is \<^verbatim>\<open>channels[i - 1]\<close>, absent when \<open>i = 0\<close>.\<close>

fun pick_loop :: "OutputChannel option \<Rightarrow> OutputChannel list \<Rightarrow> QuickPickItem list" where
  "pick_loop prev [] = []"
| "pick_loop prev (channel # rest) =
     (let prevHasDifferentVisibility =
            (case prev of None \<Rightarrow> False | Some p \<Rightarrow> \<not> visible channel \<and> visible p)
      in (if prev = None \<or> prevHasDifferentVisibility then [Separator ''blabla''] else [])
           @ [Item (name channel) channel] @ pick_loop (Some channel) rest)"

definition pick_items ::
  "(string \<Rightarrow> string \<Rightarrow> int) \<Rightarrow> (string \<Rightarrow> string) \<Rightarrow> OutputChannel list \<Rightarrow> QuickPickItem list" where
  "pick_items localeCompare toLocaleLowerCase chans =
     pick_loop None (sort_by (compareChannels localeCompare toLocaleLowerCase) chans)"

definition items_of :: "OutputChannel list \<Rightarrow> QuickPickItem list" where
  "items_of chans = map (\<lambda>c. Item (name c) c) chans"

text \<open>A comparator that orders: total and transitive.\<close>

definition ordering :: "('a \<Rightarrow> 'a \<Rightarrow> int) \<Rightarrow> bool" where
  "ordering cmp \<longleftrightarrow>
     (\<forall>a b. cmp a b < 0 \<or> cmp b a \<le> 0) \<and>
     (\<forall>a b c. cmp a b \<le> 0 \<longrightarrow> cmp b c \<le> 0 \<longrightarrow> cmp a c \<le> 0)"

subsection \<open>Auxiliary notions for the statements and proofs\<close>

text \<open>The number of characters of line \<open>l\<close> in front of column \<open>column\<close>, clamped.\<close>

definition clampColumn :: "string \<Rightarrow> int \<Rightarrow> nat" where
  "clampColumn l column =
     (if column \<le> 1 then 0 else if column \<ge> int (length l) + 1 then length l
      else nat (column - 1))"

definition ownedOnLines :: "OutputChannel \<Rightarrow> TextModel \<Rightarrow> int \<Rightarrow> nat list" where
  "ownedOnLines ch tm k =
     map id_dec (filter (\<lambda>d. id_dec d \<in> set (decorationIds ch)) (getLinesDecorations tm 1 k))"

text \<open>The text model after the edit of \<^verbatim>\<open>doAppend\<close>.\<close>

definition appended :: "string \<Rightarrow> bool \<Rightarrow> TextModel \<Rightarrow> TextModel" where
  "appended content eol tm =
     (let lastLine = getLineCount tm;
          c = int (length (last (getLinesContent tm))) + 1
      in applyEdits \<lparr>range = Range_new lastLine c lastLine c,
                      text_op = Some (if eol then content @ getEOL tm else content),
                      forceMoveMarkers = True\<rparr> tm)"

definition decorate ::
    "string \<Rightarrow> OutputChannelSeverity \<Rightarrow> bool \<Rightarrow> channel_state
       \<Rightarrow> (error \<times> channel_state) + channel_state" where
  "decorate content severity eol st =
     (case st of (ch, tm) \<Rightarrow>
       (let lastLine = getLineCount tm;
            c = int (length (last (getLinesContent tm))) + 1;
            rng = Range_new lastLine c lastLine c;
            tm1 = appended content eol tm
        in if severity \<noteq> Info then
             (let cls = (if severity = Error then ''theia-output-error''
                         else ''theia-output-warning'');
                  lineCount1 = getLineCount tm1
              in (case getLineFirstNonWhitespaceColumn tm1 lineCount1 of
                    Inl e \<Rightarrow> Inl (e, (ch, tm1))
                  | Inr firstNonWhitespace \<Rightarrow>
                      let endLine = (if firstNonWhitespace = 0 then lineCount1 - 1
                                     else lineCount1)
                      in (case getLineLastNonWhitespaceColumn tm1 endLine of
                            Inl e \<Rightarrow> Inl (e, (ch, tm1))
                          | Inr endCol \<Rightarrow>
                              let (newIds, tm2) =
                                    deltaDecorations []
                                      [(Range_new (startLineNumber rng) (startColumn rng)
                                          endLine endCol, cls)] tm1
                              in Inr (ch\<lparr>decorationIds :=
                                           fold set_add newIds (decorationIds ch)\<rparr>, tm2))))
           else Inr (ch, tm1)))"

definition keptFirstLine :: "string \<Rightarrow> string" where
  "keptFirstLine l = (if \<forall>c \<in> set l. isWhitespace c then l else dropWhile isWhitespace l)"

definition sameSettings :: "OutputChannel \<Rightarrow> OutputChannel \<Rightarrow> bool" where
  "sameSettings ch ch' \<longleftrightarrow>
     textModifyQueue ch' = textModifyQueue ch \<and> priv_maxLineNumber ch' = priv_maxLineNumber ch"

text \<open>A channel and text models to run the operations on.\<close>

definition exChannel :: OutputChannel where
  "exChannel =
     \<lparr>resource = \<lparr>rid = 0, uri_res = OutputUri_create ''build''\<rparr>, visible = True,
      priv_maxLineNumber = 2, decorationIds = [], textModifyQueue = [],
      visibilityListeners = [0], contentChanges = 0\<rparr>"

definition exModel :: TextModel where
  "exModel =
     \<lparr>getValue = ''a'' @ [LF] @ ''  b'' @ [LF], decorations = [], lastDecorationId = 0\<rparr>"

definition exDecorated :: channel_state where
  "exDecorated =
     (exChannel\<lparr>decorationIds := [1, 2]\<rparr>,
      \<lparr>getValue = ''a'' @ [LF] @ ''  b'' @ [LF] @ ''c'' @ [LF],
       decorations =
         [\<lparr>id_dec = 1, startOffset = 6, endOffset = 7, inlineClassName = ''theia-output-error''\<rparr>,
          \<lparr>id_dec = 2, startOffset = 0, endOffset = 1, inlineClassName = ''theia-output-error''\<rparr>,
          \<lparr>id_dec = 3, startOffset = 0, endOffset = 1, inlineClassName = ''other''\<rparr>],
       lastDecorationId = 3\<rparr>)"

text \<open>The manager after \<^verbatim>\<open>getChannel\<close> has created the channel \<open>nm\<close>.\<close>

definition created :: "string \<Rightarrow> OutputChannelManager \<Rightarrow> OutputChannelManager" where
  "created nm m =
     (let res = createResource (OutputUri_create nm) (nextRef m);
          r = nextRef m + 1;
          ch = new_OutputChannel res (maxChannelHistory m)
      in m\<lparr>resources := AList.update (toString (OutputUri_create nm)) res (resources m),
            nextRef := r + 1,
            heap := (heap m)(r \<mapsto> ch\<lparr>visibilityListeners := [r]\<rparr>),
            channels := AList.update nm r (channels m),
            fired := fired m @ [ChannelAdded nm] @
              (if selectedChannel m = None then [SelectedChannelChanged (Some nm)] else []),
            priv_selectedChannel :=
              (if selectedChannel m = None then Some r else selectedChannel m),
            toDisposeOnChannelDeletion :=
              AList.update nm [DisposeChannel r, DisposeVisibilityListener r, DisposeResource r]
                (toDisposeOnChannelDeletion m)\<rparr>)"

text \<open>
  The manager after \<^verbatim>\<open>deleteChannel\<close> has removed the channel \<open>r\<close> registered as \<open>nm\<close>
  and disposed its collection, before the listener on \<^verbatim>\<open>onChannelDeleted\<close> runs.
\<close>

definition deleted :: "string \<Rightarrow> nat \<Rightarrow> OutputChannelManager \<Rightarrow> OutputChannelManager" where
  "deleted nm r m =
     m\<lparr>channels := AList.delete nm (channels m),
       resources := AList.delete (toString (OutputUri_create nm)) (resources m),
       heap := (heap m)(r := map_option (\<lambda>ch. ch\<lparr>decorationIds := [], visibilityListeners := []\<rparr>)
                               (heap m r)),
       toDisposeOnChannelDeletion := AList.update nm [] (toDisposeOnChannelDeletion m),
       fired := fired m @ [ChannelDeleted nm]\<rparr>"

definition exNamed :: "string \<Rightarrow> bool \<Rightarrow> OutputChannel" where
  "exNamed nm vis =
     exChannel\<lparr>resource := \<lparr>rid = 0, uri_res = OutputUri_create nm\<rparr>, visible := vis\<rparr>"

text \<open>
  An example of a collation and of a case mapping, to run the quick pick on: the dictionary
  order of the character codes, and the lower case of the letters \<open>A\<close> to \<open>Z\<close> only. They
  are one possible behaviour of a runtime, not that of a particular locale.
\<close>

definition exCompare :: "string \<Rightarrow> string \<Rightarrow> int" where
  "exCompare a b = (if a < b then - 1 else if a = b then 0 else 1)"

definition exLower :: "string \<Rightarrow> string" where
  "exLower s =
     map (\<lambda>c. if 65 \<le> (of_char c :: nat) \<and> (of_char c :: nat) \<le> 90
              then char_of (of_char c + 32 :: nat) else c) s"

section \<open>Properties of the text model\<close>

lemma splitLines_nonempty [simp]: "splitLines s \<noteq> []"
  by (induction s) auto

lemma length_splitLines_pos [simp]: "0 < length (splitLines s)"
  by (simp add: length_greater_0_conv)

lemma splitLines_LF_free: "l \<in> set (splitLines s) \<Longrightarrow> LF \<notin> set l"
proof (induction s arbitrary: l)
  case Nil
  then show ?case by simp
next
  case (Cons c cs)
  show ?case
  proof (cases "c = LF")
    case True
    with Cons show ?thesis by auto
  next
    case False
    obtain h t where ht: "splitLines cs = h # t"
      by (cases "splitLines cs") auto
    with Cons False show ?thesis by auto
  qed
qed

lemma joinLines_Cons: "ls \<noteq> [] \<Longrightarrow> joinLines (l # ls) = l @ LF # joinLines ls"
  by (cases ls) auto

lemma joinLines_splitLines [simp]: "joinLines (splitLines s) = s"
proof (induction s)
  case Nil
  then show ?case by simp
next
  case (Cons c cs)
  obtain h t where ht: "splitLines cs = h # t"
    by (cases "splitLines cs") auto
  show ?case
  proof (cases "c = LF")
    case True
    with Cons show ?thesis by (simp add: joinLines_Cons)
  next
    case False
    with Cons ht show ?thesis by (cases t) auto
  qed
qed

lemma splitLines_line: "LF \<notin> set l \<Longrightarrow> splitLines l = [l]"
  by (induction l) auto

lemma splitLines_line_LF: "LF \<notin> set l \<Longrightarrow> splitLines (l @ LF # r) = l # splitLines r"
  by (induction l) auto

lemma splitLines_joinLines:
  "ls \<noteq> [] \<Longrightarrow> \<forall>l \<in> set ls. LF \<notin> set l \<Longrightarrow> splitLines (joinLines ls) = ls"
proof (induction ls rule: joinLines.induct)
  case 1
  then show ?case by simp
next
  case (2 l)
  then show ?case by (simp add: splitLines_line)
next
  case (3 l v va)
  then show ?case by (simp add: splitLines_line_LF)
qed

lemma lineStartOffset_0 [simp]: "lineStartOffset ls 0 = 0"
  by (simp add: lineStartOffset_def)

lemma lineStartOffset_Suc [simp]:
  "lineStartOffset (l # ls) (Suc k) = length l + 1 + lineStartOffset ls k"
  by (simp add: lineStartOffset_def)

lemma drop_joinLines:
  "k < length ls \<Longrightarrow> c \<le> length (ls ! k) \<Longrightarrow>
   drop (lineStartOffset ls k + c) (joinLines ls) = joinLines (drop c (ls ! k) # drop (Suc k) ls)"
proof (induction ls arbitrary: k)
  case Nil
  then show ?case by simp
next
  case (Cons l ls)
  show ?case
  proof (cases k)
    case 0
    with Cons.prems show ?thesis by (cases ls) auto
  next
    case (Suc j)
    with Cons.prems have j: "j < length ls" "c \<le> length (ls ! j)" by auto
    then have "ls \<noteq> []" by auto
    then have "joinLines (l # ls) = l @ LF # joinLines ls" by (rule joinLines_Cons)
    with Suc Cons.IH [OF j] show ?thesis by simp
  qed
qed

lemma take_joinLines_end:
  "ls \<noteq> [] \<Longrightarrow> lineStartOffset ls (length ls - 1) + length (last ls) = length (joinLines ls)"
proof (induction ls rule: joinLines.induct)
  case 1
  then show ?case by simp
next
  case (2 l)
  then show ?case by simp
next
  case (3 l v va)
  then show ?case by simp
qed

lemma deltaDecorations_remove:
  "deltaDecorations ids [] tm =
     ([], tm\<lparr>decorations := filter (\<lambda>d. id_dec d \<notin> set ids) (decorations tm)\<rparr>)"
  by (simp add: deltaDecorations_def)

lemma getLinesContent_decorations_update [simp]:
  "getLinesContent (tm\<lparr>decorations := ds\<rparr>) = getLinesContent tm"
  by (simp add: getLinesContent_def)

lemma getLineCount_decorations_update [simp]:
  "getLineCount (tm\<lparr>decorations := ds\<rparr>) = getLineCount tm"
  by (simp add: getLineCount_def)

lemma getLineContent_decorations_update [simp]:
  "getLineContent (tm\<lparr>decorations := ds\<rparr>) l = getLineContent tm l"
  by (simp add: getLineContent_def validLine_def)

lemma getLineFirstNonWhitespaceColumn_decorations_update [simp]:
  "getLineFirstNonWhitespaceColumn (tm\<lparr>decorations := ds\<rparr>) l =
   getLineFirstNonWhitespaceColumn tm l"
  by (simp add: getLineFirstNonWhitespaceColumn_def)

lemma getOffsetAt_decorations_update [simp]:
  "getOffsetAt (tm\<lparr>decorations := ds\<rparr>) l c = getOffsetAt tm l c"
  by (simp add: getOffsetAt_def)

lemma getLineCount_pos [simp]: "1 \<le> getLineCount tm"
  using length_splitLines_pos [of "getValue tm"]
  by (simp add: getLineCount_def getLinesContent_def Suc_le_eq del: length_splitLines_pos)

lemma getOffsetAt_start [simp]: "getOffsetAt tm 1 1 = 0"
  by (simp add: getOffsetAt_def validatePosition_def Let_def getLinesContent_def)

lemma clampColumn_le: "clampColumn l c \<le> length l"
  by (auto simp: clampColumn_def)

lemma getOffsetAt_valid:
  "validLine tm l \<Longrightarrow>
   getOffsetAt tm l c =
     lineStartOffset (getLinesContent tm) (nat (l - 1))
       + clampColumn (getLinesContent tm ! nat (l - 1)) c"
  by (auto simp: getOffsetAt_def validatePosition_def Let_def validLine_def getLineCount_def
      clampColumn_def)

lemma getValue_applyEdits_delete_prefix:
  assumes "0 < k" and "validLine tm (k + 1)"
  shows "getValue (applyEdits \<lparr>range = Range_new 1 1 (k + 1) col, text_op = None,
                     forceMoveMarkers = True\<rparr> tm) =
         drop (getOffsetAt tm (k + 1) col) (getValue tm)"
  using assms by (simp add: applyEdits_def Range_new_def Let_def)

lemma getLinesContent_drop:
  assumes "validLine tm (k + 1)" and "0 \<le> k"
  shows "splitLines (drop (getOffsetAt tm (k + 1) col) (getValue tm)) =
         drop (clampColumn (getLinesContent tm ! nat k) col) (getLinesContent tm ! nat k)
           # drop (Suc (nat k)) (getLinesContent tm)"
proof -
  let ?ls = "getLinesContent tm"
  let ?c = "clampColumn (?ls ! nat k) col"
  have k: "nat k < length ?ls"
    using assms by (simp add: validLine_def getLineCount_def)
  have off: "getOffsetAt tm (k + 1) col = lineStartOffset ?ls (nat k) + ?c"
    using assms by (simp add: getOffsetAt_valid)
  have v: "getValue tm = joinLines ?ls"
    by (simp add: getLinesContent_def)
  have "drop (getOffsetAt tm (k + 1) col) (getValue tm) =
        joinLines (drop ?c (?ls ! nat k) # drop (Suc (nat k)) ?ls)"
    unfolding off v by (rule drop_joinLines [OF k clampColumn_le])
  moreover have "\<forall>l \<in> set (drop ?c (?ls ! nat k) # drop (Suc (nat k)) ?ls). LF \<notin> set l"
  proof
    fix l assume "l \<in> set (drop ?c (?ls ! nat k) # drop (Suc (nat k)) ?ls)"
    then consider "l = drop ?c (?ls ! nat k)" | "l \<in> set (drop (Suc (nat k)) ?ls)" by auto
    then show "LF \<notin> set l"
    proof cases
      case 1
      have "?ls ! nat k \<in> set ?ls" using k by simp
      then have "LF \<notin> set (?ls ! nat k)"
        unfolding getLinesContent_def by (rule splitLines_LF_free)
      with 1 show ?thesis by (auto dest: in_set_dropD)
    next
      case 2
      then have "l \<in> set ?ls" by (rule in_set_dropD)
      then show ?thesis unfolding getLinesContent_def by (rule splitLines_LF_free)
    qed
  qed
  ultimately show ?thesis by (simp add: splitLines_joinLines)
qed

lemma getLineMaxColumn_Inr:
  "getLineMaxColumn tm l = Inr c \<Longrightarrow> validLine tm l \<and> 1 \<le> c"
  by (auto simp: getLineMaxColumn_def getLineContent_def split: if_splits)

lemma getLineMaxColumn_valid:
  "validLine tm l \<Longrightarrow> getLineMaxColumn tm l = Inr (int (length (getLinesContent tm ! nat (l - 1))) + 1)"
  by (auto simp: getLineMaxColumn_def getLineContent_def split: if_splits)

lemma getLineFirstNonWhitespaceColumn_Inr:
  "getLineFirstNonWhitespaceColumn tm l = Inr c \<Longrightarrow> validLine tm l"
  by (auto simp: getLineFirstNonWhitespaceColumn_def getLineContent_def split: if_splits)

lemma Range_new_lines:
  "0 < k \<Longrightarrow> 1 \<le> c \<Longrightarrow> startLineNumber (Range_new 1 1 k (c + 1)) = 1 \<and>
     endLineNumber (Range_new 1 1 k (c + 1)) = k"
  by (auto simp: Range_new_def)

lemma decorationIds_fireContentChange [simp]:
  "decorationIds (fireContentChange ch) = decorationIds ch"
  "priv_maxLineNumber (fireContentChange ch) = priv_maxLineNumber ch"
  by (simp_all add: fireContentChange_def)

lemma ensureMax_no_trim:
  "getLineCount tm - priv_maxLineNumber ch - 1 \<le> 0 \<Longrightarrow>
   ensureMaxChannelHistory (ch, tm) = Inr (fireContentChange ch, tm)"
  by (simp add: ensureMaxChannelHistory_def Let_def)

lemma ensureMax_trim:
  assumes ok: "ensureMaxChannelHistory (ch, tm) = Inr (ch', tm')"
    and k: "k = getLineCount tm - priv_maxLineNumber ch - 1" "0 < k"
  shows "validLine tm (k + 1) \<and>
         (\<exists>col. getLineFirstNonWhitespaceColumn tm (k + 1) = Inr col \<and>
          tm' = applyEdits \<lparr>range = Range_new 1 1 (k + 1) col, text_op = None,
                            forceMoveMarkers = True\<rparr>
                  (tm\<lparr>decorations :=
                        filter (\<lambda>d. id_dec d \<notin> set (ownedOnLines ch tm k)) (decorations tm)\<rparr>)) \<and>
         ch' = (fireContentChange ch)
                 \<lparr>decorationIds := fold set_delete (ownedOnLines ch tm k) (decorationIds ch)\<rparr>"
proof -
  from ok k obtain endCol where ec: "getLineMaxColumn tm k = Inr endCol"
    by (auto simp: ensureMaxChannelHistory_def Let_def split: sum.splits)
  then have ec1: "1 \<le> endCol" by (auto dest: getLineMaxColumn_Inr)
  note rl = Range_new_lines [OF k(2) ec1]
  show ?thesis
  proof (cases "ownedOnLines ch tm k = []")
    case True
    with ok k ec rl show ?thesis
      by (auto simp: ensureMaxChannelHistory_def Let_def ownedOnLines_def
          dest: getLineFirstNonWhitespaceColumn_Inr split: sum.splits)
  next
    case False
    with ok k ec rl show ?thesis
      by (auto simp: ensureMaxChannelHistory_def Let_def ownedOnLines_def deltaDecorations_remove
          dest: getLineFirstNonWhitespaceColumn_Inr split: sum.splits)
  qed
qed

lemma getOffsetAt_end:
  "getOffsetAt tm (getLineCount tm) (int (length (last (getLinesContent tm))) + 1)
     = length (getValue tm)"
proof -
  let ?ls = "getLinesContent tm"
  have ne: "?ls \<noteq> []" by (simp add: getLinesContent_def)
  then have n: "nat (int (length ?ls) - 1) = length ?ls - 1" by simp
  have v: "validLine tm (getLineCount tm)" by (simp add: validLine_def)
  have l: "?ls ! nat (getLineCount tm - 1) = last ?ls"
    using ne by (simp add: last_conv_nth getLineCount_def n)
  have "getOffsetAt tm (getLineCount tm) (int (length (last ?ls)) + 1) =
        lineStartOffset ?ls (length ?ls - 1) + length (last ?ls)"
    unfolding getOffsetAt_valid [OF v] l by (simp add: getLineCount_def n clampColumn_def)
  also have "\<dots> = length (joinLines ?ls)" by (rule take_joinLines_end [OF ne])
  finally show ?thesis by (simp add: getLinesContent_def)
qed

lemma getLineMaxColumn_last:
  "getLineMaxColumn tm (getLineCount tm) = Inr (int (length (last (getLinesContent tm))) + 1)"
proof -
  let ?ls = "getLinesContent tm"
  have ne: "?ls \<noteq> []" by (simp add: getLinesContent_def)
  have v: "validLine tm (getLineCount tm)" by (simp add: validLine_def)
  have "nat (getLineCount tm - 1) = length ?ls - 1" by (simp add: getLineCount_def)
  then show ?thesis using ne by (simp add: getLineMaxColumn_valid [OF v] last_conv_nth)
qed

lemma getValue_appended:
  "getValue (appended content eol tm) =
     getValue tm @ (if eol then content @ getEOL tm else content)"
  by (simp add: appended_def applyEdits_def Let_def Range_new_def getOffsetAt_end)

lemma getValue_addDecorations:
  "getValue (snd (addDecorations ds tm)) = getValue tm"
  by (induction ds tm rule: addDecorations.induct) (auto simp: Let_def split: prod.splits)

lemma getValue_deltaDecorations:
  "getValue (snd (deltaDecorations olds news tm)) = getValue tm"
  by (simp add: deltaDecorations_def getValue_addDecorations)

lemma getValue_deltaDecorations':
  "deltaDecorations olds news tm = (ids, tm') \<Longrightarrow> getValue tm' = getValue tm"
  using getValue_deltaDecorations [of olds news tm] by simp

lemma doAppend_decorate:
  "doAppend content severity eol (ch, tm) =
     (case decorate content severity eol (ch, tm) of
        Inl err \<Rightarrow> Inl err
      | Inr st2 \<Rightarrow>
          (case ensureMaxChannelHistory st2 of
             Inl err \<Rightarrow> Inl err
           | Inr (ch3, tm3) \<Rightarrow> Inr (fireContentChange ch3, tm3)))"
  unfolding doAppend_def decorate_def appended_def Let_def prod.case getLineMaxColumn_last sum.case
  by (rule refl)

lemma decorate_state:
  assumes "decorate content severity eol (ch, tm) = Inr (ch2, tm2)
           \<or> decorate content severity eol (ch, tm) = Inl (e, (ch2, tm2))"
  shows "getValue tm2 = getValue (appended content eol tm) \<and>
         priv_maxLineNumber ch2 = priv_maxLineNumber ch"
  using assms
  by (auto simp: decorate_def Let_def split: sum.splits if_splits prod.splits
      dest!: getValue_deltaDecorations')

lemma doAppend_Inr:
  assumes "doAppend content severity eol (ch, tm) = Inr (ch', tm')"
  shows "\<exists>ch2 tm2 ch3. getValue tm2 = getValue (appended content eol tm) \<and>
           priv_maxLineNumber ch2 = priv_maxLineNumber ch \<and>
           ensureMaxChannelHistory (ch2, tm2) = Inr (ch3, tm') \<and>
           ch' = fireContentChange ch3"
proof -
  from assms obtain ch2 tm2 where d: "decorate content severity eol (ch, tm) = Inr (ch2, tm2)"
    by (auto simp: doAppend_decorate split: sum.splits)
  with assms obtain ch3 where "ensureMaxChannelHistory (ch2, tm2) = Inr (ch3, tm')"
    "ch' = fireContentChange ch3"
    by (auto simp: doAppend_decorate split: sum.splits)
  with decorate_state [of content severity eol ch tm ch2 tm2] d show ?thesis by blast
qed

lemma takeWhile_all: "length (takeWhile P l) = length l \<longleftrightarrow> (\<forall>c \<in> set l. P c)"
  by (metis takeWhile_eq_all_conv length_takeWhile_le takeWhile_eq_take take_all_iff order_refl)

lemma drop_firstNonWhitespace:
  assumes "getLineFirstNonWhitespaceColumn tm l = Inr col"
  shows "drop (clampColumn (getLinesContent tm ! nat (l - 1)) col) (getLinesContent tm ! nat (l - 1))
         = keptFirstLine (getLinesContent tm ! nat (l - 1))"
proof -
  let ?l = "getLinesContent tm ! nat (l - 1)"
  let ?n = "length (takeWhile isWhitespace ?l)"
  have n: "?n \<le> length ?l" by (rule length_takeWhile_le)
  from assms have col: "col = (if ?n = length ?l then 0 else int ?n + 1)"
    by (auto simp: getLineFirstNonWhitespaceColumn_def getLineContent_def
        firstNonWhitespaceIndex_def Let_def split: if_splits)
  show ?thesis
  proof (cases "?n = length ?l")
    case True
    then have "\<forall>c \<in> set ?l. isWhitespace c" by (simp add: takeWhile_all)
    with True col show ?thesis by (simp add: keptFirstLine_def clampColumn_def)
  next
    case False
    then have "\<not> (\<forall>c \<in> set ?l. isWhitespace c)" by (metis takeWhile_all)
    then have "keptFirstLine ?l = dropWhile isWhitespace ?l"
      unfolding keptFirstLine_def by (rule if_not_P)
    moreover from False n col have "clampColumn ?l col = ?n"
      by (auto simp: clampColumn_def)
    ultimately show ?thesis by (simp add: dropWhile_eq_drop)
  qed
qed

lemma ensureMax_lines:
  assumes ok: "ensureMaxChannelHistory (ch, tm) = Inr (ch', tm')"
  shows "getLinesContent tm' =
           (let ls = getLinesContent tm;
                linesToRemove = int (length ls) - priv_maxLineNumber ch - 1
            in if linesToRemove > 0
               then keptFirstLine (ls ! nat linesToRemove) # drop (nat linesToRemove + 1) ls
               else ls)"
proof -
  define k where "k = getLineCount tm - priv_maxLineNumber ch - 1"
  show ?thesis
  proof (cases "0 < k")
    case False
    with ok k_def show ?thesis
      by (simp add: ensureMax_no_trim Let_def getLineCount_def)
  next
    case True
    let ?tmF = "tm\<lparr>decorations :=
                  filter (\<lambda>d. id_dec d \<notin> set (ownedOnLines ch tm k)) (decorations tm)\<rparr>"
    from ensureMax_trim [OF ok k_def True] obtain col where
      v: "validLine tm (k + 1)" and
      col: "getLineFirstNonWhitespaceColumn tm (k + 1) = Inr col" and
      tm': "tm' = applyEdits \<lparr>range = Range_new 1 1 (k + 1) col, text_op = None,
                            forceMoveMarkers = True\<rparr> ?tmF"
      by blast
    have vF: "validLine ?tmF (k + 1)" using v by (simp add: validLine_def)
    have "getValue tm' = drop (getOffsetAt tm (k + 1) col) (getValue tm)"
      unfolding tm' getValue_applyEdits_delete_prefix [OF True vF] by simp
    then have "getLinesContent tm' =
        drop (clampColumn (getLinesContent tm ! nat k) col) (getLinesContent tm ! nat k)
           # drop (Suc (nat k)) (getLinesContent tm)"
      using getLinesContent_drop [OF v, of col] True by (simp add: getLinesContent_def)
    also have "drop (clampColumn (getLinesContent tm ! nat k) col) (getLinesContent tm ! nat k)
       = keptFirstLine (getLinesContent tm ! nat k)"
      using drop_firstNonWhitespace [OF col] by simp
    finally show ?thesis using True k_def by (simp add: Let_def getLineCount_def)
  qed
qed

lemma ensureMax_bound:
  assumes ok: "ensureMaxChannelHistory (ch, tm) = Inr (ch', tm')"
  shows "getLineCount tm' \<le> priv_maxLineNumber ch + 1 \<and>
         priv_maxLineNumber ch' = priv_maxLineNumber ch"
proof -
  define k where "k = getLineCount tm - priv_maxLineNumber ch - 1"
  show ?thesis
  proof (cases "0 < k")
    case False
    with ok k_def show ?thesis by (auto simp: ensureMax_no_trim)
  next
    case True
    from ensureMax_trim [OF ok k_def True]
    have v: "validLine tm (k + 1)" and
      ch': "ch' = (fireContentChange ch)
                 \<lparr>decorationIds := fold set_delete (ownedOnLines ch tm k) (decorationIds ch)\<rparr>"
      by blast+
    from v True have "nat k < length (getLinesContent tm)"
      by (simp add: validLine_def getLineCount_def)
    with ensureMax_lines [OF ok] True k_def ch' show ?thesis
      by (simp add: Let_def getLineCount_def)
  qed
qed

lemma getLineFirstNonWhitespaceColumn_valid:
  "validLine tm l \<Longrightarrow> \<exists>c. getLineFirstNonWhitespaceColumn tm l = Inr c"
  by (simp add: getLineFirstNonWhitespaceColumn_def getLineContent_def Let_def)

lemma getLineFirstNonWhitespaceColumn_Inl:
  "getLineFirstNonWhitespaceColumn tm l = Inl e \<Longrightarrow> \<not> validLine tm l"
  by (auto simp: getLineFirstNonWhitespaceColumn_def getLineContent_def Let_def
      split: if_splits)

lemma getLineMaxColumn_Inl:
  "getLineMaxColumn tm l = Inl e \<Longrightarrow> \<not> validLine tm l"
  by (auto simp: getLineMaxColumn_def getLineContent_def split: if_splits)

lemma ensureMax_Inl:
  assumes "ensureMaxChannelHistory (ch, tm) = Inl (e, st')"
  shows "priv_maxLineNumber ch < 0"
proof (rule ccontr)
  assume n: "\<not> priv_maxLineNumber ch < 0"
  from assms n show False
    by (auto simp: ensureMaxChannelHistory_def Let_def deltaDecorations_remove validLine_def
        split: if_splits sum.splits prod.splits
        dest!: getLineFirstNonWhitespaceColumn_Inl getLineMaxColumn_Inl)
qed

lemma ensureMax_total:
  assumes "0 \<le> priv_maxLineNumber ch"
  shows "\<exists>st'. ensureMaxChannelHistory (ch, tm) = Inr st'"
proof (cases "ensureMaxChannelHistory (ch, tm)")
  case (Inl a)
  with assms ensureMax_Inl [of ch tm "fst a" "snd a"] show ?thesis by simp
next
  case (Inr b)
  then show ?thesis by blast
qed

lemma doAppend_Info_total:
  assumes "0 \<le> priv_maxLineNumber ch"
  shows "\<exists>st'. doAppend content Info eol (ch, tm) = Inr st'"
proof -
  have d: "decorate content Info eol (ch, tm) = Inr (ch, appended content eol tm)"
    by (simp add: decorate_def Let_def)
  from ensureMax_total [OF assms] obtain st' where
    "ensureMaxChannelHistory (ch, appended content eol tm) = Inr st'" by blast
  then show ?thesis by (cases st') (simp add: doAppend_decorate d)
qed

lemma doAppend_bound:
  assumes "doAppend content severity eol (ch, tm) = Inr (ch', tm')"
  shows "getLineCount tm' \<le> priv_maxLineNumber ch + 1 \<and>
         priv_maxLineNumber ch' = priv_maxLineNumber ch \<and>
         getLinesContent tm' =
           (let ls = splitLines (getValue tm @ (if eol then content @ getEOL tm else content));
                linesToRemove = int (length ls) - priv_maxLineNumber ch - 1
            in if linesToRemove > 0
               then keptFirstLine (ls ! nat linesToRemove) # drop (nat linesToRemove + 1) ls
               else ls)"
proof -
  from doAppend_Inr [OF assms] obtain ch2 tm2 ch3 where
    v: "getValue tm2 = getValue (appended content eol tm)" and
    m: "priv_maxLineNumber ch2 = priv_maxLineNumber ch" and
    e: "ensureMaxChannelHistory (ch2, tm2) = Inr (ch3, tm')" and
    c: "ch' = fireContentChange ch3"
    by blast
  from v have ls: "getLinesContent tm2 =
      splitLines (getValue tm @ (if eol then content @ getEOL tm else content))"
    by (simp add: getLinesContent_def getValue_appended)
  from ensureMax_bound [OF e] m c ensureMax_lines [OF e] show ?thesis
    unfolding ls by simp
qed

lemma sameSettings_simps [simp]:
  "sameSettings ch ch"
  "sameSettings ch (fireContentChange ch') = sameSettings ch ch'"
  "sameSettings ch (ch'\<lparr>decorationIds := ids\<rparr>) = sameSettings ch ch'"
  by (simp_all add: sameSettings_def fireContentChange_def)

lemma decorate_frame:
  assumes "decorate content severity eol (ch, tm) = Inr (ch2, tm2)
           \<or> decorate content severity eol (ch, tm) = Inl (e, (ch2, tm2))"
  shows "sameSettings ch ch2"
  using assms
  by (auto simp: decorate_def Let_def split: sum.splits if_splits prod.splits)

lemma ensureMax_frame:
  assumes "ensureMaxChannelHistory (ch, tm) = Inr (ch2, tm2)
           \<or> ensureMaxChannelHistory (ch, tm) = Inl (e, (ch2, tm2))"
  shows "sameSettings ch ch2"
  using assms
  by (auto simp: ensureMaxChannelHistory_def Let_def split: sum.splits if_splits prod.splits)

lemma sameSettings_trans: "sameSettings a b \<Longrightarrow> sameSettings b c \<Longrightarrow> sameSettings a c"
  by (simp add: sameSettings_def)

lemma doAppend_frame:
  assumes "doAppend content severity eol (ch, tm) = Inr (ch', tm')
           \<or> doAppend content severity eol (ch, tm) = Inl (e, (ch', tm'))"
  shows "sameSettings ch ch'"
proof (cases "decorate content severity eol (ch, tm)")
  case (Inl a)
  with assms have "decorate content severity eol (ch, tm) = Inl (e, (ch', tm'))"
    by (auto simp: doAppend_decorate)
  then show ?thesis using decorate_frame by blast
next
  case (Inr st2)
  obtain ch2 tm2 where st2: "st2 = (ch2, tm2)" by (cases st2)
  from Inr st2 have 1: "sameSettings ch ch2"
    using decorate_frame [of content severity eol ch tm ch2 tm2] by simp
  show ?thesis
  proof (cases "ensureMaxChannelHistory (ch2, tm2)")
    case (Inl a)
    with assms Inr st2 have "ensureMaxChannelHistory (ch2, tm2) = Inl (e, (ch', tm'))"
      by (auto simp: doAppend_decorate)
    then have "sameSettings ch2 ch'" using ensureMax_frame by blast
    with 1 show ?thesis by (rule sameSettings_trans)
  next
    case (Inr st3)
    obtain ch3 tm3 where st3: "st3 = (ch3, tm3)" by (cases st3)
    with Inr have "sameSettings ch2 ch3" using ensureMax_frame by blast
    moreover from assms Inr st3 \<open>decorate content severity eol (ch, tm) = Inr st2\<close> st2
    have "ch' = fireContentChange ch3" by (auto simp: doAppend_decorate)
    ultimately show ?thesis using 1 by (auto intro: sameSettings_trans)
  qed
qed

lemma doClear_frame: "doClear (ch, tm) = (ch', tm') \<Longrightarrow> sameSettings ch ch'"
  by (auto simp: doClear_def Let_def split: prod.splits)

lemma runNext_step:
  assumes "textModifyQueue ch = t # ts" and "runNext (ch, tm) = (ch', tm')"
  shows "textModifyQueue ch' = ts \<and> priv_maxLineNumber ch' = priv_maxLineNumber ch"
proof (cases t)
  case (AppendTask content severity eol)
  with assms have "doAppend content severity eol (ch\<lparr>textModifyQueue := ts\<rparr>, tm) = Inr (ch', tm')
      \<or> (\<exists>e. doAppend content severity eol (ch\<lparr>textModifyQueue := ts\<rparr>, tm) = Inl (e, (ch', tm')))"
    by (auto simp: runNext_def runTask_def stateAfter_def split: sum.splits prod.splits)
  then have "sameSettings (ch\<lparr>textModifyQueue := ts\<rparr>) ch'"
    using doAppend_frame by blast
  then show ?thesis by (simp add: sameSettings_def)
next
  case ClearTask
  with assms have "doClear (ch\<lparr>textModifyQueue := ts\<rparr>, tm) = (ch', tm')"
    by (auto simp: runNext_def runTask_def stateAfter_def)
  then have "sameSettings (ch\<lparr>textModifyQueue := ts\<rparr>) ch'" by (rule doClear_frame)
  then show ?thesis by (simp add: sameSettings_def)
qed

lemma runNext_pending:
  "textModifyQueue ch = q @ [t] \<Longrightarrow>
   \<exists>ch' tm'. (runNext ^^ length q) (ch, tm) = (ch', tm') \<and> textModifyQueue ch' = [t] \<and>
     priv_maxLineNumber ch' = priv_maxLineNumber ch"
proof (induction q arbitrary: ch tm)
  case Nil
  then show ?case by simp
next
  case (Cons a q)
  obtain ch1 tm1 where r: "runNext (ch, tm) = (ch1, tm1)" by (cases "runNext (ch, tm)")
  from Cons.prems have "textModifyQueue ch = a # (q @ [t])" by simp
  from runNext_step [OF this r] have 1: "textModifyQueue ch1 = q @ [t]"
    "priv_maxLineNumber ch1 = priv_maxLineNumber ch" by simp_all
  from Cons.IH [OF 1(1), of tm1] 1(2) r show ?case
    by (simp add: funpow_swap1)
qed

lemma set_maxLineNumber_bound:
  assumes "0 \<le> n"
  shows "getLineCount (snd (runQueue (set_maxLineNumber n ch, tm))) \<le> n + 1"
proof -
  let ?ch = "set_maxLineNumber n ch"
  have q: "textModifyQueue ?ch = textModifyQueue ch @ [AppendTask [] Info False]"
    and m: "priv_maxLineNumber ?ch = n"
    by (simp_all add: set_maxLineNumber_def append_def)
  from runNext_pending [OF q, of tm] m obtain ch' tm' where
    r: "(runNext ^^ length (textModifyQueue ch)) (?ch, tm) = (ch', tm')" and
    q': "textModifyQueue ch' = [AppendTask [] Info False]" and
    m': "priv_maxLineNumber ch' = n"
    by auto
  have rq: "runQueue (?ch, tm) = runNext (ch', tm')"
    by (simp add: runQueue_def q r)
  from assms m' have "0 \<le> priv_maxLineNumber (ch'\<lparr>textModifyQueue := []\<rparr>)" by simp
  from doAppend_Info_total [OF this] obtain ch2 tm2 where
    d: "doAppend [] Info False (ch'\<lparr>textModifyQueue := []\<rparr>, tm') = Inr (ch2, tm2)"
    by fastforce
  from doAppend_bound [OF d] m' have "getLineCount tm2 \<le> n + 1" by simp
  moreover from d q' have "runNext (ch', tm') = (ch2, tm2)"
    by (simp add: runNext_def runTask_def stateAfter_def)
  ultimately show ?thesis by (simp add: rq)
qed

lemma offset_le_length:
  "k < length ls \<Longrightarrow> c \<le> length (ls ! k) \<Longrightarrow>
   lineStartOffset ls k + c \<le> length (joinLines ls)"
proof (induction ls arbitrary: k)
  case Nil
  then show ?case by simp
next
  case (Cons l ls)
  show ?case
  proof (cases k)
    case 0
    with Cons.prems show ?thesis by (cases ls) auto
  next
    case (Suc j)
    with Cons.prems have j: "j < length ls" "c \<le> length (ls ! j)" by auto
    then have "ls \<noteq> []" by auto
    then have "joinLines (l # ls) = l @ LF # joinLines ls" by (rule joinLines_Cons)
    with Suc Cons.IH [OF j] show ?thesis by simp
  qed
qed

lemma getOffsetAt_le:
  assumes "validLine tm l"
  shows "getOffsetAt tm l c \<le> length (getValue tm)"
proof -
  let ?ls = "getLinesContent tm"
  from assms have k: "nat (l - 1) < length ?ls"
    by (auto simp: validLine_def getLineCount_def)
  have "lineStartOffset ?ls (nat (l - 1)) + clampColumn (?ls ! nat (l - 1)) c
          \<le> length (joinLines ?ls)"
    by (rule offset_le_length [OF k clampColumn_le])
  then show ?thesis by (simp add: getOffsetAt_valid [OF assms] getLinesContent_def)
qed

lemma fold_set_delete: "fold set_delete R ids = filter (\<lambda>i. i \<notin> set R) ids"
proof (induction R arbitrary: ids)
  case Nil
  then show ?case by simp
next
  case (Cons r R)
  have "filter (\<lambda>i. i \<notin> set R) (set_delete r ids) = filter (\<lambda>i. i \<notin> set (r # R)) ids"
    by (induction ids) (auto simp: set_delete_def)
  with Cons show ?case by simp
qed

lemma markerAfterEdit_delete_prefix [simp]: "markerAfterEdit 0 n 0 m = m - n"
  by (simp add: markerAfterEdit_def)

lemma decorationAfterEdit_delete_prefix:
  "decorationAfterEdit 0 n 0 d =
     d\<lparr>startOffset := startOffset d - n,
       endOffset := max (startOffset d - n) (endOffset d - n)\<rparr>"
  by (simp add: decorationAfterEdit_def Let_def max_def)

lemma ensureMax_decorations:
  assumes ok: "ensureMaxChannelHistory (ch, tm) = Inr (ch', tm')"
    and k: "k = getLineCount tm - priv_maxLineNumber ch - 1" "0 < k"
  shows "\<exists>n \<le> length (getValue tm).
           getValue tm' = drop n (getValue tm) \<and>
           decorations tm' =
             map (decorationAfterEdit 0 n 0)
               (filter (\<lambda>d. id_dec d \<notin> set (ownedOnLines ch tm k)) (decorations tm))"
    and "decorationIds ch' = filter (\<lambda>i. i \<notin> set (ownedOnLines ch tm k)) (decorationIds ch)"
proof -
  let ?tmF = "tm\<lparr>decorations :=
                filter (\<lambda>d. id_dec d \<notin> set (ownedOnLines ch tm k)) (decorations tm)\<rparr>"
  from ensureMax_trim [OF ok k] obtain col where
    v: "validLine tm (k + 1)" and
    tm': "tm' = applyEdits \<lparr>range = Range_new 1 1 (k + 1) col, text_op = None,
                          forceMoveMarkers = True\<rparr> ?tmF" and
    ch': "ch' = (fireContentChange ch)
               \<lparr>decorationIds := fold set_delete (ownedOnLines ch tm k) (decorationIds ch)\<rparr>"
    by blast
  let ?n = "getOffsetAt tm (k + 1) col"
  have "?n \<le> length (getValue tm)" by (rule getOffsetAt_le [OF v])
  moreover have "getValue tm' = drop ?n (getValue tm)"
    using k by (simp add: tm' applyEdits_def Let_def Range_new_def)
  moreover have "decorations tm' = map (decorationAfterEdit 0 ?n 0)
               (filter (\<lambda>d. id_dec d \<notin> set (ownedOnLines ch tm k)) (decorations tm))"
    using k by (simp add: tm' applyEdits_def Let_def Range_new_def)
  ultimately show "\<exists>n \<le> length (getValue tm).
           getValue tm' = drop n (getValue tm) \<and>
           decorations tm' =
             map (decorationAfterEdit 0 n 0)
               (filter (\<lambda>d. id_dec d \<notin> set (ownedOnLines ch tm k)) (decorations tm))"
    by blast
  show "decorationIds ch' = filter (\<lambda>i. i \<notin> set (ownedOnLines ch tm k)) (decorationIds ch)"
    by (simp add: ch' fold_set_delete)
qed

lemma ensureMax_value:
  "\<exists>n. getValue (snd (stateAfter (ensureMaxChannelHistory (ch, tm)))) = drop n (getValue tm)"
proof (cases "ensureMaxChannelHistory (ch, tm)")
  case (Inl a)
  then have "getValue (snd (snd a)) = getValue tm"
    by (auto simp: ensureMaxChannelHistory_def Let_def deltaDecorations_remove
        split: if_splits sum.splits prod.splits)
  then have "getValue (snd (stateAfter (ensureMaxChannelHistory (ch, tm)))) = drop 0 (getValue tm)"
    by (auto simp: Inl stateAfter_def split: prod.splits)
  then show ?thesis by blast
next
  case (Inr b)
  obtain ch' tm' where b: "b = (ch', tm')" by (cases b)
  let ?k = "getLineCount tm - priv_maxLineNumber ch - 1"
  show ?thesis
  proof (cases "0 < ?k")
    case True
    from ensureMax_decorations(1) [OF Inr [unfolded b] refl True]
    show ?thesis by (auto simp: Inr b stateAfter_def)
  next
    case False
    then have "getValue (snd (stateAfter (ensureMaxChannelHistory (ch, tm)))) = drop 0 (getValue tm)"
      by (simp add: ensureMax_no_trim stateAfter_def)
    then show ?thesis by blast
  qed
qed

lemma ensureMax_value_no_trim:
  assumes "getLineCount tm \<le> priv_maxLineNumber ch + 1"
  shows "getValue (snd (stateAfter (ensureMaxChannelHistory (ch, tm)))) = getValue tm"
  using assms by (simp add: ensureMax_no_trim stateAfter_def)

lemma doAppend_value:
  fixes content severity eol ch tm
  defines "newText \<equiv> (if eol then content @ getEOL tm else content)"
  defines "tm' \<equiv> snd (stateAfter (doAppend content severity eol (ch, tm)))"
  shows "\<exists>n. getValue tm' = drop n (getValue tm @ newText)"
    and "int (length (splitLines (getValue tm @ newText))) \<le> priv_maxLineNumber ch + 1
         \<Longrightarrow> getValue tm' = getValue tm @ newText"
proof -
  have *: "(\<exists>n. getValue tm' = drop n (getValue tm @ newText)) \<and>
        (int (length (splitLines (getValue tm @ newText))) \<le> priv_maxLineNumber ch + 1
         \<longrightarrow> getValue tm' = getValue tm @ newText)"
  proof (cases "decorate content severity eol (ch, tm)")
    case (Inl a)
    obtain e ch2 tm2 where a: "a = (e, (ch2, tm2))" by (cases a) auto
    from Inl a have "getValue tm2 = getValue (appended content eol tm)"
      using decorate_state by blast
    moreover have "tm' = tm2"
      by (simp add: tm'_def doAppend_decorate Inl a stateAfter_def)
    ultimately have "getValue tm' = drop 0 (getValue tm @ newText)"
      by (simp add: getValue_appended newText_def)
    then show ?thesis by (intro conjI exI [of _ 0]) simp_all
  next
    case (Inr st2)
    obtain ch2 tm2 where st2: "st2 = (ch2, tm2)" by (cases st2)
    from Inr st2 have v: "getValue tm2 = getValue tm @ newText"
      and m: "priv_maxLineNumber ch2 = priv_maxLineNumber ch"
      using decorate_state [of content severity eol ch tm ch2 tm2]
      by (simp_all add: getValue_appended newText_def)
    have t: "tm' = snd (stateAfter (ensureMaxChannelHistory (ch2, tm2)))"
      by (simp add: tm'_def doAppend_decorate Inr st2 stateAfter_def split: sum.splits prod.splits)
    have lc: "getLineCount tm2 = int (length (splitLines (getValue tm @ newText)))"
      by (simp add: getLineCount_def getLinesContent_def v)
    from ensureMax_value [of ch2 tm2] ensureMax_value_no_trim [of tm2 ch2]
    show ?thesis unfolding t v m lc by blast
  qed
  from * show "\<exists>n. getValue tm' = drop n (getValue tm @ newText)" by blast
  from * show "int (length (splitLines (getValue tm @ newText))) \<le> priv_maxLineNumber ch + 1
         \<Longrightarrow> getValue tm' = getValue tm @ newText" by blast
qed

lemma getLineLastNonWhitespaceColumn_Inl:
  "getLineLastNonWhitespaceColumn tm l = Inl e \<Longrightarrow> \<not> validLine tm l"
  by (auto simp: getLineLastNonWhitespaceColumn_def getLineContent_def Let_def
      split: if_splits)

lemma decorate_Inl:
  assumes "decorate content severity eol (ch, tm) = Inl (e, (ch2, tm2))"
  shows "getLineCount tm2 = 1"
proof -
  let ?tm1 = "appended content eol tm"
  have v: "validLine ?tm1 (getLineCount ?tm1)" by (simp add: validLine_def)
  from getLineFirstNonWhitespaceColumn_valid [OF v] obtain c where
    c: "getLineFirstNonWhitespaceColumn ?tm1 (getLineCount ?tm1) = Inr c" ..
  from assms c v have "tm2 = ?tm1 \<and> \<not> validLine ?tm1 (getLineCount ?tm1 - 1)"
    by (auto simp: decorate_def Let_def split: if_splits sum.splits prod.splits
        dest!: getLineLastNonWhitespaceColumn_Inl)
  then show ?thesis
    using getLineCount_pos [of ?tm1] by (auto simp: validLine_def)
qed

lemma doAppend_bound_always:
  assumes m: "0 \<le> priv_maxLineNumber ch"
  shows "getLineCount (snd (stateAfter (doAppend content severity eol (ch, tm))))
           \<le> priv_maxLineNumber ch + 1"
proof (cases "doAppend content severity eol (ch, tm)")
  case (Inr st)
  obtain ch' tm' where st: "st = (ch', tm')" by (cases st)
  from doAppend_bound [OF Inr [unfolded st]] show ?thesis
    by (simp add: Inr st stateAfter_def)
next
  case (Inl a)
  obtain e ch' tm' where a: "a = (e, (ch', tm'))" by (cases a) auto
  show ?thesis
  proof (cases "decorate content severity eol (ch, tm)")
    case dl: (Inl b)
    with Inl a have "decorate content severity eol (ch, tm) = Inl (e, (ch', tm'))"
      by (simp add: doAppend_decorate)
    from decorate_Inl [OF this] m show ?thesis
      by (simp add: Inl a stateAfter_def)
  next
    case dr: (Inr st2)
    obtain ch2 tm2 where st2: "st2 = (ch2, tm2)" by (cases st2)
    from dr st2 have "priv_maxLineNumber ch2 = priv_maxLineNumber ch"
      using decorate_state [of content severity eol ch tm ch2 tm2] by simp
    with m ensureMax_total [of ch2 tm2] obtain st3 where
      "ensureMaxChannelHistory (ch2, tm2) = Inr st3" by auto
    with Inl dr st2 show ?thesis
      by (simp add: doAppend_decorate split: prod.splits)
  qed
qed

lemma onPreferenceChanged_bound:
  assumes "0 < v" and "v \<noteq> priv_maxLineNumber ch"
  shows "getLineCount (snd (runQueue
           (onPreferenceChanged dflt ''output.maxChannelHistory'' (Some v) ch, tm))) \<le> v + 1"
proof -
  from assms have "onPreferenceChanged dflt ''output.maxChannelHistory'' (Some v) ch =
      set_maxLineNumber v ch"
    by (auto simp: onPreferenceChanged_def Let_def)
  with set_maxLineNumber_bound [of v ch tm] assms(1) show ?thesis by simp
qed

section \<open>The channel: appending and trimming\<close>



text \<open>
  C2. \<^verbatim>\<open>append\<close> and \<^verbatim>\<open>appendLine\<close> queue a \<^verbatim>\<open>doAppend\<close> of the content without
  and with the end-of-line sequence. Whether \<^verbatim>\<open>doAppend\<close> returns or throws, the text it
  leaves is the old text followed by the new text, less a prefix that the trimming has
  removed; when the appended text needs no trimming it is exactly the old text followed by the
  new text.
\<close>

theorem append_at_end:
  "(\<exists>n. getValue (snd (stateAfter (doAppend content severity eol (ch, tm)))) =
          drop n (getValue tm @ (if eol then content @ getEOL tm else content))) \<and>
   (int (length (splitLines (getValue tm @ (if eol then content @ getEOL tm else content))))
      \<le> priv_maxLineNumber ch + 1 \<longrightarrow>
    getValue (snd (stateAfter (doAppend content severity eol (ch, tm)))) =
      getValue tm @ (if eol then content @ getEOL tm else content)) \<and>
   runTask (AppendTask content severity eol) (ch, tm) = doAppend content severity eol (ch, tm) \<and>
   textModifyQueue (append content severity ch) =
     textModifyQueue ch @ [AppendTask content severity False] \<and>
   textModifyQueue (appendLine content severity ch) =
     textModifyQueue ch @ [AppendTask content severity True]"
  using doAppend_value [where content = content and severity = severity and eol = eol
      and ch = ch and tm = tm]
  by (simp add: runTask_def append_def appendLine_def)

theorem append_at_end_witness:
  "int (length (splitLines (getValue exModel @ ''x''))) \<le> priv_maxLineNumber exChannel + 1 \<and>
   getValue (snd (stateAfter (doAppend ''x'' Warning False (exChannel, exModel)))) =
     getValue exModel @ ''x''"
proof -
  have h: "int (length (splitLines (getValue exModel @ ''x''))) \<le> priv_maxLineNumber exChannel + 1"
    by code_simp
  from append_at_end [of "''x''" Warning False exChannel exModel] h show ?thesis
    by simp
qed

text \<open>
  C4. When the trimming removes \<open>linesToRemove\<close> lines, the decorations it deletes are those
  whose id the channel tracks and that lie on the lines \<open>1\<close> to \<open>linesToRemove\<close>; their ids
  leave the channel's set. Every other decoration stays, with its class and id, and its offsets
  reduced by the length \<open>n\<close> of the removed text (an offset inside the removed text becomes
  \<open>0\<close>).
\<close>

theorem trim_decorations:
  "ensureMaxChannelHistory (ch, tm) = Inr (ch', tm') \<Longrightarrow>
   linesToRemove = getLineCount tm - priv_maxLineNumber ch - 1 \<Longrightarrow> 0 < linesToRemove \<Longrightarrow>
   (\<exists>n \<le> length (getValue tm).
      getValue tm' = drop n (getValue tm) \<and>
      decorations tm' =
        map (\<lambda>d. d\<lparr>startOffset := startOffset d - n,
                     endOffset := max (startOffset d - n) (endOffset d - n)\<rparr>)
          (filter (\<lambda>d. id_dec d \<notin> set (ownedOnLines ch tm linesToRemove)) (decorations tm))) \<and>
   decorationIds ch' =
     filter (\<lambda>i. i \<notin> set (ownedOnLines ch tm linesToRemove)) (decorationIds ch)"
  using ensureMax_decorations [of ch tm ch' tm' linesToRemove]
  by (simp add: decorationAfterEdit_delete_prefix [abs_def])

theorem trim_decorations_witness:
  "ensureMaxChannelHistory exDecorated =
     Inr ((fst exDecorated)\<lparr>decorationIds := [1], contentChanges := 1\<rparr>,
          \<lparr>getValue = ''b'' @ [LF] @ ''c'' @ [LF],
           decorations =
             [\<lparr>id_dec = 1, startOffset = 2, endOffset = 3, inlineClassName = ''theia-output-error''\<rparr>,
              \<lparr>id_dec = 3, startOffset = 0, endOffset = 0, inlineClassName = ''other''\<rparr>],
           lastDecorationId = 3\<rparr>) \<and>
   (0::int) < getLineCount (snd exDecorated) - priv_maxLineNumber (fst exDecorated) - 1 \<and>
   filter (\<lambda>i. i \<notin> set (ownedOnLines (fst exDecorated) (snd exDecorated) 1))
     (decorationIds (fst exDecorated)) = [1]"
proof -
  have e: "ensureMaxChannelHistory (fst exDecorated, snd exDecorated) =
     Inr ((fst exDecorated)\<lparr>decorationIds := [1], contentChanges := 1\<rparr>,
          \<lparr>getValue = ''b'' @ [LF] @ ''c'' @ [LF],
           decorations =
             [\<lparr>id_dec = 1, startOffset = 2, endOffset = 3, inlineClassName = ''theia-output-error''\<rparr>,
              \<lparr>id_dec = 3, startOffset = 0, endOffset = 0, inlineClassName = ''other''\<rparr>],
           lastDecorationId = 3\<rparr>)"
    by code_simp
  have k: "1 = getLineCount (snd exDecorated) - priv_maxLineNumber (fst exDecorated) - 1"
    by code_simp
  from trim_decorations [OF e k] e k show ?thesis
    by simp
qed

section \<open>Properties of the manager\<close>

lemma createResource_simps [simp]:
  "uri_res (createResource u r) = u" "rid (createResource u r) = r"
  by (simp_all add: createResource_def)

lemma OutputUri_create_simps [simp]:
  "path (OutputUri_create nm) = nm" "scheme (OutputUri_create nm) = OutputUri_SCHEME"
  by (simp_all add: OutputUri_create_def)

lemma getChannel_existing:
  "map_of (channels m) nm = Some r \<Longrightarrow> getChannel nm m = (r, m)"
  by (simp add: getChannel.simps)

lemma getChannel_existing':
  "map_of (channels m) nm \<noteq> None \<Longrightarrow> getChannel nm m = (the (map_of (channels m) nm), m)"
  by (auto simp: getChannel_existing)

lemma registerListener_new:
  assumes "heap m r = Some ch" and "visibilityListeners ch = []"
    and "map_of (toDisposeOnChannelDeletion m) (name ch) = None
         \<or> map_of (toDisposeOnChannelDeletion m) (name ch) = Some []"
  shows "registerListener r m =
     m\<lparr>priv_selectedChannel :=
          (if selectedChannel m = None then Some r else selectedChannel m),
        fired := fired m @
          (if selectedChannel m = None then [SelectedChannelChanged (Some (name ch))] else []),
        heap := (heap m)(r \<mapsto> ch\<lparr>visibilityListeners := [r]\<rparr>),
        toDisposeOnChannelDeletion :=
          AList.update (name ch)
            [DisposeChannel r, DisposeVisibilityListener r, DisposeResource r]
            (toDisposeOnChannelDeletion m)\<rparr>"
  using assms
  by (auto simp: registerListener_def Let_def set_selectedChannel_def selectedChannel_def
      nameOf_def)

lemma getChannel_new:
  assumes c: "map_of (channels m) nm = None" and u: "unregistered m nm"
  shows "getChannel nm m = (nextRef m + 1, created nm m)"
proof -
  let ?u = "OutputUri_create nm"
  let ?res = "createResource ?u (nextRef m)"
  let ?r = "nextRef m + 1"
  let ?ch = "new_OutputChannel ?res (maxChannelHistory m)"
  let ?m3 = "m\<lparr>resources := AList.update (toString ?u) ?res (resources m),
              nextRef := ?r + 1, heap := (heap m)(?r \<mapsto> ?ch),
              channels := AList.update nm ?r (channels m),
              fired := fired m @ [ChannelAdded nm]\<rparr>"
  have n: "name ?ch = nm" by simp
  from u have r: "map_of (resources m) (toString ?u) = None"
    by (simp add: unregistered_def)
  have "getChannel nm m = (?r, registerListener ?r ?m3)"
    apply (subst getChannel.simps)
    apply (simp add: c r Let_def getChannel_existing' update_conv')
    apply (rule arg_cong [where f = "registerListener (Suc (nextRef m))"])
    apply (rule OutputChannelManager.equality; simp)
    done
  moreover have "registerListener ?r ?m3 = created nm m"
  proof -
    have "registerListener ?r ?m3 = ?m3\<lparr>priv_selectedChannel :=
          (if selectedChannel ?m3 = None then Some ?r else selectedChannel ?m3),
        fired := fired ?m3 @
          (if selectedChannel ?m3 = None then [SelectedChannelChanged (Some (name ?ch))] else []),
        heap := (heap ?m3)(?r \<mapsto> ?ch\<lparr>visibilityListeners := [?r]\<rparr>),
        toDisposeOnChannelDeletion :=
          AList.update (name ?ch)
            [DisposeChannel ?r, DisposeVisibilityListener ?r, DisposeResource ?r]
            (toDisposeOnChannelDeletion ?m3)\<rparr>"
    proof (rule registerListener_new)
      show "heap ?m3 ?r = Some ?ch" by simp
      show "visibilityListeners ?ch = []" by (simp add: new_OutputChannel_def)
      show "map_of (toDisposeOnChannelDeletion ?m3) (name ?ch) = None
         \<or> map_of (toDisposeOnChannelDeletion ?m3) (name ?ch) = Some []"
        using u unfolding n by (simp add: unregistered_def)
    qed
    then show ?thesis
      unfolding n by (simp add: created_def Let_def selectedChannel_def)
  qed
  ultimately show ?thesis by simp
qed

lemma registered_cong:
  assumes "heap m' r = heap m r"
    and "map_of (toDisposeOnChannelDeletion m') nm = map_of (toDisposeOnChannelDeletion m) nm"
    and "map_of (resources m') (toString (OutputUri_create nm)) =
         map_of (resources m) (toString (OutputUri_create nm))"
  shows "registered m' nm r = registered m nm r"
  by (simp add: registered_def assms)

lemma unregistered_cong:
  assumes "map_of (toDisposeOnChannelDeletion m') nm = map_of (toDisposeOnChannelDeletion m) nm"
    and "map_of (resources m') (toString (OutputUri_create nm)) =
         map_of (resources m) (toString (OutputUri_create nm))"
  shows "unregistered m' nm = unregistered m nm"
  by (simp add: unregistered_def assms)

lemma firstVisibleChannel_Some:
  assumes "firstVisibleChannel m = Some r"
  shows "r \<in> set (getChannels m) \<and> isVisible m r"
proof -
  from assms obtain rs where "getVisibleChannels m = r # rs"
    by (auto simp: firstVisibleChannel_def split: list.splits)
  then have "r \<in> set (filter (isVisible m) (getChannels m))"
    by (simp add: getVisibleChannels_def)
  then show ?thesis by simp
qed

lemma wellFormedD:
  assumes "wellFormed m"
  shows "distinct (map fst (channels m))"
    and "(nm, r) \<in> set (channels m) \<Longrightarrow> registered m nm r"
    and "map_of (channels m) nm = None \<Longrightarrow> unregistered m nm"
    and "heap m r = Some ch \<Longrightarrow> r < nextRef m"
    and "selectedOk m"
  using assms by (auto simp: wellFormed_def)

lemma registered_ref_less:
  assumes "wellFormed m" and "(nm, r) \<in> set (channels m)"
  shows "r < nextRef m"
proof -
  from wellFormedD(2) [OF assms] obtain ch where "heap m r = Some ch"
    by (auto simp: registered_def)
  then show ?thesis by (rule wellFormedD(4) [OF assms(1)])
qed

lemma registered_same_ref:
  assumes "wellFormed m" "(nm, r) \<in> set (channels m)" "(nm', r) \<in> set (channels m)"
  shows "nm' = nm"
proof -
  from assms have "registered m nm r" "registered m nm' r" by (auto dest: wellFormedD(2))
  then have "OutputUri_create nm = OutputUri_create nm'" by (auto simp: registered_def)
  then show ?thesis by (simp add: OutputUri_create_def)
qed

lemma wellFormed_init: "wellFormed (init pref)"
  by (simp add: wellFormed_def init_def unregistered_def selectedOk_def selectedChannel_def)

lemma created_fields [simp]:
  "channels (created nm m) = AList.update nm (nextRef m + 1) (channels m)"
  "resources (created nm m) =
     AList.update (toString (OutputUri_create nm))
       (createResource (OutputUri_create nm) (nextRef m)) (resources m)"
  "heap (created nm m) =
     (heap m)(nextRef m + 1 \<mapsto>
        (new_OutputChannel (createResource (OutputUri_create nm) (nextRef m))
           (maxChannelHistory m))\<lparr>visibilityListeners := [nextRef m + 1]\<rparr>)"
  "nextRef (created nm m) = nextRef m + 2"
  "priv_selectedChannel (created nm m) =
     (if selectedChannel m = None then Some (nextRef m + 1) else selectedChannel m)"
  "toDisposeOnChannelDeletion (created nm m) =
     AList.update nm
       [DisposeChannel (nextRef m + 1), DisposeVisibilityListener (nextRef m + 1),
        DisposeResource (nextRef m + 1)] (toDisposeOnChannelDeletion m)"
  "fired (created nm m) = fired m @ [ChannelAdded nm] @
     (if selectedChannel m = None then [SelectedChannelChanged (Some nm)] else [])"
  "console (created nm m) = console m"
  "maxChannelHistory (created nm m) = maxChannelHistory m"
  by (simp_all add: created_def Let_def)

lemma wellFormed_created:
  assumes wf: "wellFormed m" and c: "map_of (channels m) nm = None"
  shows "wellFormed (created nm m)"
proof -
  let ?r = "nextRef m + 1"
  let ?m = "created nm m"
  note ch = update_fresh [OF c]
  from c have fresh: "nm \<notin> fst ` set (channels m)" by (simp add: map_of_eq_None_iff)
  have 1: "distinct (map fst (channels ?m))"
    using wellFormedD(1) [OF wf] fresh by (simp add: ch)
  have 2: "registered ?m nm' r'" if "(nm', r') \<in> set (channels ?m)" for nm' r'
  proof (cases "(nm', r') = (nm, ?r)")
    case True
    then show ?thesis
      by (simp add: registered_def update_conv' uri_def new_OutputChannel_def)
  next
    case False
    with that have in_m: "(nm', r') \<in> set (channels m)" by (auto simp: ch)
    with fresh have ne: "nm' \<noteq> nm" by force
    from registered_ref_less [OF wf in_m] have "r' \<noteq> ?r" by simp
    with ne have "registered ?m nm' r' = registered m nm' r'"
      by (intro registered_cong) (simp_all add: update_conv')
    with wellFormedD(2) [OF wf in_m] show ?thesis by simp
  qed
  have 3: "unregistered ?m nm'" if "map_of (channels ?m) nm' = None" for nm'
  proof -
    from that have ne: "nm' \<noteq> nm" and "map_of (channels m) nm' = None"
      by (auto simp: update_conv' split: if_splits)
    then have "unregistered m nm'" using wellFormedD(3) [OF wf] by simp
    moreover from ne have "unregistered ?m nm' = unregistered m nm'"
      by (intro unregistered_cong) (simp_all add: update_conv')
    ultimately show ?thesis by simp
  qed
  have 4: "r' < nextRef ?m" if "heap ?m r' = Some ch'" for r' ch'
    using that wellFormedD(4) [OF wf, of r' ch'] by (auto split: if_splits)
  have 5: "selectedOk ?m"
  proof (cases "selectedChannel m")
    case None
    then show ?thesis
      by (simp add: selectedOk_def selectedChannel_def getChannels_def ch isVisible_def
          new_OutputChannel_def)
  next
    case (Some s)
    with wellFormedD(5) [OF wf] have s: "s \<in> set (getChannels m)" "isVisible m s"
      by (simp_all add: selectedOk_def)
    from s(2) obtain chs where "heap m s = Some chs"
      by (auto simp: isVisible_def split: option.splits)
    from wellFormedD(4) [OF wf this] have "s \<noteq> ?r" by simp
    with Some s show ?thesis
      by (simp add: selectedOk_def selectedChannel_def getChannels_def ch isVisible_def)
  qed
  from 1 2 3 4 5 show ?thesis
    unfolding wellFormed_def by blast
qed

lemma wellFormed_getChannel:
  assumes "wellFormed m"
  shows "wellFormed (snd (getChannel nm m))"
proof (cases "map_of (channels m) nm")
  case None
  with assms have "unregistered m nm" by (simp add: wellFormedD(3))
  with None assms show ?thesis by (simp add: getChannel_new wellFormed_created)
next
  case (Some r)
  with assms show ?thesis by (simp add: getChannel_existing)
qed

lemma getChannel_registered:
  assumes "wellFormed m"
  shows "(nm, fst (getChannel nm m)) \<in> set (channels (snd (getChannel nm m)))"
proof (cases "map_of (channels m) nm")
  case None
  with assms have "unregistered m nm" by (simp add: wellFormedD(3))
  with None show ?thesis by (simp add: getChannel_new update_fresh)
next
  case (Some r)
  then show ?thesis by (simp add: getChannel_existing map_of_SomeD)
qed

lemma wellFormed_frame:
  assumes wf: "wellFormed m"
    and same: "channels m' = channels m" "resources m' = resources m"
      "toDisposeOnChannelDeletion m' = toDisposeOnChannelDeletion m" "nextRef m' = nextRef m"
    and hp: "\<And>r. case heap m r of
                     None \<Rightarrow> heap m' r = None
                   | Some ch \<Rightarrow> \<exists>ch'. heap m' r = Some ch' \<and> resource ch' = resource ch \<and>
                                 visibilityListeners ch' = visibilityListeners ch"
    and sel: "selectedOk m'"
  shows "wellFormed m'"
proof -
  have 2: "registered m' nm r" if "(nm, r) \<in> set (channels m)" for nm r
  proof -
    from wellFormedD(2) [OF wf that] obtain ch where ch: "heap m r = Some ch"
      "uri ch = OutputUri_create nm" "visibilityListeners ch = [r]"
      "map_of (toDisposeOnChannelDeletion m) nm =
         Some [DisposeChannel r, DisposeVisibilityListener r, DisposeResource r]"
      "map_of (resources m) (toString (OutputUri_create nm)) = Some (resource ch)"
      by (auto simp: registered_def)
    from hp [of r] ch(1) obtain ch' where "heap m' r = Some ch'" "resource ch' = resource ch"
      "visibilityListeners ch' = visibilityListeners ch" by auto
    with ch show ?thesis by (simp add: registered_def same uri_def)
  qed
  have 3: "unregistered m' nm" if "map_of (channels m) nm = None" for nm
    using wellFormedD(3) [OF wf that] by (simp add: unregistered_def same)
  have 4: "r < nextRef m" if "heap m' r = Some ch'" for r ch'
  proof (cases "heap m r")
    case None
    with hp [of r] that show ?thesis by simp
  next
    case (Some ch)
    then show ?thesis by (rule wellFormedD(4) [OF wf])
  qed
  from wellFormedD(1) [OF wf] 2 3 4 sel show ?thesis
    unfolding wellFormed_def same by blast
qed

lemma setVisibility_registered:
  assumes "heap m r = Some ch" and "visibilityListeners ch = [r]"
  shows "setVisibility r v m =
           visibilityListener r v (m\<lparr>heap := (heap m)(r \<mapsto> ch\<lparr>visible := v\<rparr>)\<rparr>)"
  using assms by (simp add: setVisibility_def)

lemma visibilityListener_fields [simp]:
  "channels (visibilityListener r v m) = channels m"
  "resources (visibilityListener r v m) = resources m"
  "toDisposeOnChannelDeletion (visibilityListener r v m) = toDisposeOnChannelDeletion m"
  "nextRef (visibilityListener r v m) = nextRef m"
  "heap (visibilityListener r v m) = heap m"
  "console (visibilityListener r v m) = console m"
  by (simp_all add: visibilityListener_def set_selectedChannel_def)

lemma selectedChannel_visibilityListener:
  "selectedChannel (visibilityListener r v m) =
     (if v then Some r
      else if selectedChannel m = Some r then firstVisibleChannel m
      else selectedChannel m)"
  by (auto simp: visibilityListener_def set_selectedChannel_def selectedChannel_def)

lemma isVisible_cong: "heap m' = heap m \<Longrightarrow> isVisible m' = isVisible m"
  by (rule ext) (simp add: isVisible_def)

lemma getChannels_cong: "channels m' = channels m \<Longrightarrow> getChannels m' = getChannels m"
  by (simp add: getChannels_def)

lemma firstVisibleChannel_cong:
  "heap m' = heap m \<Longrightarrow> channels m' = channels m \<Longrightarrow>
   firstVisibleChannel m' = firstVisibleChannel m"
  using isVisible_cong [of m' m] getChannels_cong [of m' m]
  by (simp add: firstVisibleChannel_def getVisibleChannels_def)

lemma setVisibility_fields:
  assumes "heap m r = Some ch" and "visibilityListeners ch = [r]"
  shows "channels (setVisibility r v m) = channels m"
    and "resources (setVisibility r v m) = resources m"
    and "toDisposeOnChannelDeletion (setVisibility r v m) = toDisposeOnChannelDeletion m"
    and "nextRef (setVisibility r v m) = nextRef m"
    and "heap (setVisibility r v m) = (heap m)(r \<mapsto> ch\<lparr>visible := v\<rparr>)"
    and "console (setVisibility r v m) = console m"
  by (simp_all add: setVisibility_registered [OF assms])

lemma isVisible_setVisibility:
  assumes "heap m r = Some ch" and "visibilityListeners ch = [r]"
  shows "isVisible (setVisibility r v m) s = (if s = r then v else isVisible m s)"
  by (simp add: isVisible_def setVisibility_fields(5) [OF assms])

lemma selectedChannel_setVisibility:
  assumes "heap m r = Some ch" and "visibilityListeners ch = [r]"
  shows "selectedChannel (setVisibility r v m) =
     (if v then Some r
      else if selectedChannel m = Some r then firstVisibleChannel (setVisibility r v m)
      else selectedChannel m)"
proof -
  have fv: "firstVisibleChannel (visibilityListener r b m1) = firstVisibleChannel m1" for b m1
    by (rule firstVisibleChannel_cong) simp_all
  have sel: "selectedChannel (m\<lparr>heap := h\<rparr>) = selectedChannel m" for h
    by (simp add: selectedChannel_def)
  show ?thesis
    by (cases v)
       (simp_all add: setVisibility_registered [OF assms] selectedChannel_visibilityListener
          fv sel)
qed

lemma selectedOk_setVisibility:
  assumes wf: "wellFormed m" and reg: "(nm, r) \<in> set (channels m)"
  shows "selectedOk (setVisibility r v m)"
proof -
  from wellFormedD(2) [OF wf reg] obtain ch where ch: "heap m r = Some ch"
    "visibilityListeners ch = [r]" by (auto simp: registered_def)
  let ?m = "setVisibility r v m"
  note sel = selectedChannel_setVisibility [OF ch, of v]
  note vis = isVisible_setVisibility [OF ch]
  have chs: "getChannels (setVisibility r b m) = getChannels m" for b
    by (simp add: getChannels_def setVisibility_fields(1) [OF ch])
  from reg have r: "r \<in> set (getChannels m)" by (force simp: getChannels_def)
  show ?thesis
  proof (cases "selectedChannel ?m")
    case None
    then show ?thesis by (simp add: selectedOk_def)
  next
    case (Some s)
    have "s \<in> set (getChannels ?m) \<and> isVisible ?m s"
    proof (cases v)
      case True
      with Some sel have "s = r" by simp
      with True r show ?thesis by (simp add: chs vis)
    next
      case False
      show ?thesis
      proof (cases "selectedChannel m = Some r")
        case True
        with False Some sel have "firstVisibleChannel ?m = Some s" by simp
        then show ?thesis by (rule firstVisibleChannel_Some)
      next
        case ns: False
        with False Some sel have s: "selectedChannel m = Some s" by simp
        with ns have "s \<noteq> r" by simp
        moreover from s wellFormedD(5) [OF wf] have "s \<in> set (getChannels m)" "isVisible m s"
          by (simp_all add: selectedOk_def)
        ultimately show ?thesis by (simp add: chs vis)
      qed
    qed
    with Some show ?thesis by (simp add: selectedOk_def)
  qed
qed

lemma wellFormed_setVisibility:
  assumes wf: "wellFormed m" and reg: "(nm, r) \<in> set (channels m)"
  shows "wellFormed (setVisibility r v m)"
proof -
  from wellFormedD(2) [OF wf reg] obtain ch where ch: "heap m r = Some ch"
    "visibilityListeners ch = [r]" by (auto simp: registered_def)
  note f = setVisibility_fields [OF ch, of v]
  show ?thesis
  proof (rule wellFormed_frame [OF wf])
    show "selectedOk (setVisibility r v m)" by (rule selectedOk_setVisibility [OF wf reg])
    show "case heap m r' of None \<Rightarrow> heap (setVisibility r v m) r' = None
       | Some ch \<Rightarrow> \<exists>ch'. heap (setVisibility r v m) r' = Some ch' \<and> resource ch' = resource ch \<and>
                            visibilityListeners ch' = visibilityListeners ch" for r'
      using ch by (auto simp: f split: option.splits)
  qed (simp_all add: f)
qed

lemma deleteChannel_missing:
  "map_of (channels m) nm = None \<Longrightarrow>
   deleteChannel nm m =
     m\<lparr>console := console m @ [deleteWarning nm]\<rparr>"
  by (simp add: deleteChannel_def)

lemma map_of_registered:
  assumes "wellFormed m" and "(nm, r) \<in> set (channels m)"
  shows "map_of (channels m) nm = Some r"
  using assms by (simp add: wellFormedD(1))

lemma deleteChannel_registered:
  assumes wf: "wellFormed m" and reg: "(nm, r) \<in> set (channels m)"
  shows "deleteChannel nm m = onChannelDeleted nm (deleted nm r m)"
proof -
  from wellFormedD(2) [OF wf reg] obtain ch where ch: "heap m r = Some ch"
    "uri ch = OutputUri_create nm" "visibilityListeners ch = [r]"
    "map_of (toDisposeOnChannelDeletion m) nm =
       Some [DisposeChannel r, DisposeVisibilityListener r, DisposeResource r]"
    "map_of (resources m) (toString (OutputUri_create nm)) = Some (resource ch)"
    by (auto simp: registered_def)
  let ?m1 = "m\<lparr>channels := AList.delete nm (channels m)\<rparr>"
  have d: "dispose_collection
             [DisposeChannel r, DisposeVisibilityListener r, DisposeResource r] ?m1 =
           ?m1\<lparr>resources := AList.delete (toString (OutputUri_create nm)) (resources m),
                heap := (heap m)(r \<mapsto> ch\<lparr>decorationIds := [], visibilityListeners := []\<rparr>)\<rparr>"
    using ch by (simp add: dispose_collection_def runDisposable_def Let_def)
  show ?thesis
    unfolding deleteChannel_def map_of_registered [OF wf reg] option.case Let_def
    apply (simp add: ch d)
    apply (rule arg_cong [where f = "onChannelDeleted nm"])
    apply (rule OutputChannelManager.equality; simp add: deleted_def ch)
    done
qed

lemma onChannelDeleted_fields [simp]:
  "channels (onChannelDeleted nm m) = channels m"
  "resources (onChannelDeleted nm m) = resources m"
  "toDisposeOnChannelDeletion (onChannelDeleted nm m) = toDisposeOnChannelDeletion m"
  "nextRef (onChannelDeleted nm m) = nextRef m"
  "heap (onChannelDeleted nm m) = heap m"
  "console (onChannelDeleted nm m) = console m"
  by (simp_all add: onChannelDeleted_def set_selectedChannel_def split: option.splits)

lemma selectedChannel_onChannelDeleted:
  "selectedChannel (onChannelDeleted nm m) =
     (case selectedChannel m of
        None \<Rightarrow> None
      | Some s \<Rightarrow> if nameOf m s = Some nm then firstVisibleChannel m else Some s)"
  by (auto simp: onChannelDeleted_def set_selectedChannel_def selectedChannel_def
      split: option.splits)

lemma nameOf_registered:
  "registered m nm r \<Longrightarrow> nameOf m r = Some nm"
  by (auto simp: registered_def nameOf_def name_def OutputUri_channelName_def)

lemma selectedChannel_deleteChannel:
  assumes wf: "wellFormed m" and reg: "(nm, r) \<in> set (channels m)"
  shows "selectedChannel (deleteChannel nm m) =
     (if selectedChannel m = Some r then firstVisibleChannel (deleteChannel nm m)
      else selectedChannel m)"
proof -
  let ?d = "deleted nm r m"
  have sd: "selectedChannel ?d = selectedChannel m"
    by (simp add: deleted_def selectedChannel_def)
  have fv: "firstVisibleChannel (onChannelDeleted nm ?d) = firstVisibleChannel ?d"
    by (rule firstVisibleChannel_cong) simp_all
  show ?thesis
  proof (cases "selectedChannel m")
    case None
    then show ?thesis
      by (simp add: deleteChannel_registered [OF wf reg] selectedChannel_onChannelDeleted sd)
  next
    case (Some s)
    with wellFormedD(5) [OF wf] obtain nms where s: "(nms, s) \<in> set (channels m)"
      by (auto simp: selectedOk_def getChannels_def)
    from wellFormedD(2) [OF wf s] obtain chs where chs: "heap m s = Some chs"
      "uri chs = OutputUri_create nms" by (auto simp: registered_def)
    have "nameOf ?d s = Some nms"
      using chs by (auto simp: nameOf_def deleted_def name_def uri_def OutputUri_channelName_def)
    moreover have "nms = nm \<longleftrightarrow> s = r"
    proof
      assume "nms = nm"
      with s reg wellFormedD(1) [OF wf] show "s = r"
        by (metis map_of_is_SomeI option.inject)
    next
      assume "s = r"
      with s reg wf show "nms = nm" by (auto dest: registered_same_ref)
    qed
    ultimately show ?thesis
      using Some
      by (simp add: deleteChannel_registered [OF wf reg] selectedChannel_onChannelDeleted sd fv)
  qed
qed

lemma deleteChannel_fields:
  assumes wf: "wellFormed m" and reg: "(nm, r) \<in> set (channels m)"
  shows "channels (deleteChannel nm m) = AList.delete nm (channels m)"
    and "resources (deleteChannel nm m) =
           AList.delete (toString (OutputUri_create nm)) (resources m)"
    and "toDisposeOnChannelDeletion (deleteChannel nm m) =
           AList.update nm [] (toDisposeOnChannelDeletion m)"
    and "nextRef (deleteChannel nm m) = nextRef m"
    and "heap (deleteChannel nm m) =
           (heap m)(r := map_option (\<lambda>ch. ch\<lparr>decorationIds := [], visibilityListeners := []\<rparr>)
                           (heap m r))"
    and "console (deleteChannel nm m) = console m"
  by (simp_all add: deleteChannel_registered [OF wf reg] deleted_def)

lemma in_delete: "(k', v) \<in> set (AList.delete k al) \<longleftrightarrow> k' \<noteq> k \<and> (k', v) \<in> set al"
  by (auto simp: AList.delete_eq)

lemma wellFormed_deleteChannel_registered:
  assumes wf: "wellFormed m" and reg: "(nm, r) \<in> set (channels m)"
  shows "wellFormed (deleteChannel nm m)"
proof -
  let ?m = "deleteChannel nm m"
  note f = deleteChannel_fields [OF wf reg]
  have other: "r' \<noteq> r" if "(nm', r') \<in> set (channels m)" "nm' \<noteq> nm" for nm' r'
    using that registered_same_ref [OF wf reg, of nm'] by auto
  have 1: "distinct (map fst (channels ?m))"
    using wellFormedD(1) [OF wf] by (simp add: f distinct_delete)
  have 2: "registered ?m nm' r'" if "(nm', r') \<in> set (channels ?m)" for nm' r'
  proof -
    from that have ne: "nm' \<noteq> nm" and in_m: "(nm', r') \<in> set (channels m)"
      by (simp_all add: f in_delete)
    from other [OF in_m ne] ne have "registered ?m nm' r' = registered m nm' r'"
      by (intro registered_cong) (simp_all add: f update_conv' delete_conv')
    with wellFormedD(2) [OF wf in_m] show ?thesis by simp
  qed
  have 3: "unregistered ?m nm'" if "map_of (channels ?m) nm' = None" for nm'
  proof (cases "nm' = nm")
    case True
    then show ?thesis by (simp add: unregistered_def f update_conv' delete_conv')
  next
    case False
    with that have "map_of (channels m) nm' = None" by (simp add: f delete_conv')
    then have "unregistered m nm'" by (rule wellFormedD(3) [OF wf])
    moreover from False have "unregistered ?m nm' = unregistered m nm'"
      by (intro unregistered_cong) (simp_all add: f update_conv' delete_conv')
    ultimately show ?thesis by simp
  qed
  have 4: "r' < nextRef ?m" if "heap ?m r' = Some ch'" for r' ch'
  proof -
    from that obtain ch where "heap m r' = Some ch"
      by (auto simp: f split: if_splits)
    then show ?thesis unfolding f by (rule wellFormedD(4) [OF wf])
  qed
  have 5: "selectedOk ?m"
  proof (cases "selectedChannel ?m")
    case None
    then show ?thesis by (simp add: selectedOk_def)
  next
    case (Some s)
    have "s \<in> set (getChannels ?m) \<and> isVisible ?m s"
    proof (cases "selectedChannel m = Some r")
      case True
      with Some selectedChannel_deleteChannel [OF wf reg]
      have "firstVisibleChannel ?m = Some s" by simp
      then show ?thesis by (rule firstVisibleChannel_Some)
    next
      case False
      with Some selectedChannel_deleteChannel [OF wf reg]
      have s: "selectedChannel m = Some s" by simp
      with False have sr: "s \<noteq> r" by simp
      from s wellFormedD(5) [OF wf] have vis: "isVisible m s" and "s \<in> set (getChannels m)"
        by (simp_all add: selectedOk_def)
      then obtain nms where nms: "(nms, s) \<in> set (channels m)"
        by (auto simp: getChannels_def)
      with sr reg have "nms \<noteq> nm"
        using wellFormedD(1) [OF wf] by (metis map_of_is_SomeI option.inject)
      with nms have "(nms, s) \<in> set (channels ?m)" by (simp add: f in_delete)
      then have "s \<in> set (getChannels ?m)" by (force simp: getChannels_def)
      moreover from vis sr have "isVisible ?m s" by (simp add: isVisible_def f)
      ultimately show ?thesis by simp
    qed
    with Some show ?thesis by (simp add: selectedOk_def)
  qed
  from 1 2 3 4 5 show ?thesis unfolding wellFormed_def by blast
qed

lemma wellFormed_deleteChannel:
  assumes wf: "wellFormed m"
  shows "wellFormed (deleteChannel nm m)"
proof (cases "map_of (channels m) nm")
  case None
  show ?thesis
  proof (rule wellFormed_frame [OF wf])
    show "selectedOk (deleteChannel nm m)"
      using wellFormedD(5) [OF wf]
      by (auto simp: deleteChannel_missing [OF None] selectedOk_def selectedChannel_def
          getChannels_def isVisible_def split: option.splits)
    show "case heap m r of None \<Rightarrow> heap (deleteChannel nm m) r = None
       | Some ch \<Rightarrow> \<exists>ch'. heap (deleteChannel nm m) r = Some ch' \<and> resource ch' = resource ch \<and>
                            visibilityListeners ch' = visibilityListeners ch" for r
      by (simp add: deleteChannel_missing [OF None] split: option.splits)
  qed (simp_all add: deleteChannel_missing [OF None])
next
  case (Some r)
  then have "(nm, r) \<in> set (channels m)" by (rule map_of_SomeD)
  then show ?thesis by (rule wellFormed_deleteChannel_registered [OF wf])
qed

lemma wellFormed_execute:
  assumes wf: "wellFormed m"
  shows "wellFormed (execute c m)"
proof (cases c)
  case (GetChannel nm)
  with wf show ?thesis by (simp add: execute_def wellFormed_getChannel)
next
  case (DeleteChannel nm)
  with wf show ?thesis by (simp add: execute_def wellFormed_deleteChannel)
next
  case (Show nm)
  obtain r m' where g: "getChannel nm m = (r, m')" by (cases "getChannel nm m")
  from wellFormed_getChannel [OF wf, of nm] getChannel_registered [OF wf, of nm] g
  have "wellFormed m'" "(nm, r) \<in> set (channels m')" by simp_all
  then have "wellFormed (setVisibility r True m')" by (rule wellFormed_setVisibility)
  with Show wf g show ?thesis by (simp add: execute_def show_channel_def)
next
  case (Hide nm)
  obtain r m' where g: "getChannel nm m = (r, m')" by (cases "getChannel nm m")
  from wellFormed_getChannel [OF wf, of nm] getChannel_registered [OF wf, of nm] g
  have "wellFormed m'" "(nm, r) \<in> set (channels m')" by simp_all
  then have "wellFormed (setVisibility r False m')" by (rule wellFormed_setVisibility)
  with Hide wf g show ?thesis by (simp add: execute_def hide_def)
qed

lemma wellFormed_run: "wellFormed m \<Longrightarrow> wellFormed (run cs m)"
  unfolding run_def by (induction cs arbitrary: m) (simp_all add: wellFormed_execute)

lemma wellFormed_reachable: "wellFormed (run cs (init pref))"
  by (rule wellFormed_run [OF wellFormed_init])

lemma getChannel_channels_other:
  assumes wf: "wellFormed m" and "nm' \<noteq> nm"
  shows "map_of (channels (snd (getChannel nm' m))) nm = map_of (channels m) nm"
proof (cases "map_of (channels m) nm'")
  case None
  with wf have "unregistered m nm'" by (simp add: wellFormedD(3))
  with None assms(2) show ?thesis by (simp add: getChannel_new update_conv')
next
  case (Some r)
  then show ?thesis by (simp add: getChannel_existing)
qed

lemma getChannel_channels_same:
  assumes wf: "wellFormed m" and "map_of (channels m) nm = Some r"
  shows "map_of (channels (snd (getChannel nm' m))) nm = Some r"
proof (cases "nm' = nm")
  case True
  with assms show ?thesis by (simp add: getChannel_existing)
next
  case False
  with assms show ?thesis by (simp add: getChannel_channels_other)
qed

lemma setVisibility_channels:
  assumes wf: "wellFormed m" and reg: "(nm, r) \<in> set (channels m)"
  shows "channels (setVisibility r v m) = channels m"
proof -
  from wellFormedD(2) [OF wf reg] obtain ch where "heap m r = Some ch"
    "visibilityListeners ch = [r]" by (auto simp: registered_def)
  then show ?thesis by (rule setVisibility_fields(1))
qed

lemma execute_keeps_channel:
  assumes wf: "wellFormed m" and c: "c \<noteq> DeleteChannel nm"
    and r: "map_of (channels m) nm = Some r"
  shows "map_of (channels (execute c m)) nm = Some r"
proof (cases c)
  case (GetChannel nm')
  with wf r show ?thesis by (simp add: execute_def getChannel_channels_same)
next
  case (DeleteChannel nm')
  with c have ne: "nm' \<noteq> nm" by simp
  show ?thesis
  proof (cases "map_of (channels m) nm'")
    case None
    with DeleteChannel r show ?thesis by (simp add: execute_def deleteChannel_missing)
  next
    case (Some r')
    then have "(nm', r') \<in> set (channels m)" by (rule map_of_SomeD)
    from deleteChannel_fields(1) [OF wf this] DeleteChannel ne r show ?thesis
      by (simp add: execute_def delete_conv')
  qed
next
  case (Show nm')
  obtain r' m' where g: "getChannel nm' m = (r', m')" by (cases "getChannel nm' m")
  from wellFormed_getChannel [OF wf, of nm'] getChannel_registered [OF wf, of nm'] g
  have "wellFormed m'" "(nm', r') \<in> set (channels m')" by simp_all
  then have "channels (setVisibility r' True m') = channels m'" by (rule setVisibility_channels)
  moreover from getChannel_channels_same [OF wf r, of nm'] g
  have "map_of (channels m') nm = Some r" by simp
  ultimately show ?thesis using Show g r by (simp add: execute_def show_channel_def)
next
  case (Hide nm')
  obtain r' m' where g: "getChannel nm' m = (r', m')" by (cases "getChannel nm' m")
  from wellFormed_getChannel [OF wf, of nm'] getChannel_registered [OF wf, of nm'] g
  have "wellFormed m'" "(nm', r') \<in> set (channels m')" by simp_all
  then have "channels (setVisibility r' False m') = channels m'" by (rule setVisibility_channels)
  moreover from getChannel_channels_same [OF wf r, of nm'] g
  have "map_of (channels m') nm = Some r" by simp
  ultimately show ?thesis using Hide g r by (simp add: execute_def hide_def)
qed

lemma run_keeps_channel:
  assumes "wellFormed m" and "DeleteChannel nm \<notin> set cs"
    and "map_of (channels m) nm = Some r"
  shows "map_of (channels (run cs m)) nm = Some r"
  using assms
proof (induction cs arbitrary: m)
  case Nil
  then show ?case by (simp add: run_def)
next
  case (Cons c cs)
  from Cons.prems have c: "c \<noteq> DeleteChannel nm" and cs: "DeleteChannel nm \<notin> set cs" by auto
  have "map_of (channels (run cs (execute c m))) nm = Some r"
    by (rule Cons.IH [OF wellFormed_execute [OF Cons.prems(1)] cs
          execute_keeps_channel [OF Cons.prems(1) c Cons.prems(3)]])
  then show ?case by (simp add: run_def)
qed

lemma getChannel_fresh_ref:
  assumes wf: "wellFormed m" and "map_of (channels m) nm = None"
  shows "fst (getChannel nm m) = nextRef m + 1" and "heap m (fst (getChannel nm m)) = None"
proof -
  from assms have u: "unregistered m nm" by (simp add: wellFormedD(3))
  with assms show 1: "fst (getChannel nm m) = nextRef m + 1" by (simp add: getChannel_new)
  show "heap m (fst (getChannel nm m)) = None"
  proof (cases "heap m (nextRef m + 1)")
    case None
    then show ?thesis by (simp add: 1)
  next
    case (Some ch)
    from wellFormedD(4) [OF wf this] show ?thesis by simp
  qed
qed

lemma getChannel_distinct:
  assumes wf: "wellFormed m" and ne: "nm' \<noteq> nm"
  shows "fst (getChannel nm' (snd (getChannel nm m))) \<noteq> fst (getChannel nm m)"
proof -
  let ?m = "snd (getChannel nm m)"
  let ?r = "fst (getChannel nm m)"
  have wf': "wellFormed ?m" by (rule wellFormed_getChannel [OF wf])
  have reg: "(nm, ?r) \<in> set (channels ?m)" by (rule getChannel_registered [OF wf])
  have reg': "(nm', fst (getChannel nm' ?m)) \<in> set (channels (snd (getChannel nm' ?m)))"
    by (rule getChannel_registered [OF wf'])
  have "map_of (channels ?m) nm = Some ?r" by (rule map_of_registered [OF wf' reg])
  from getChannel_channels_same [OF wf' this, of nm']
  have "(nm, ?r) \<in> set (channels (snd (getChannel nm' ?m)))" by (rule map_of_SomeD)
  with registered_same_ref [OF wellFormed_getChannel [OF wf'] this, of nm'] reg' ne
  show ?thesis by auto
qed

lemma fired_onChannelDeleted:
  "\<exists>es. fired (onChannelDeleted nm m) = fired m @ es \<and> ChannelDeleted nm \<notin> set es"
  by (auto simp: onChannelDeleted_def set_selectedChannel_def split: option.splits)

lemma isVisible_deleteChannel:
  assumes wf: "wellFormed m" and reg: "(nm, r) \<in> set (channels m)"
  shows "isVisible (deleteChannel nm m) s = isVisible m s"
  by (simp add: isVisible_def deleteChannel_fields(5) [OF wf reg] split: option.splits)

lemma getChannels_deleteChannel:
  assumes wf: "wellFormed m" and reg: "(nm, r) \<in> set (channels m)"
  shows "getChannels (deleteChannel nm m) = filter (\<lambda>s. s \<noteq> r) (getChannels m)"
proof -
  have "(k \<noteq> nm) = (s \<noteq> r)" if "(k, s) \<in> set (channels m)" for k s
  proof
    assume "k \<noteq> nm"
    with that registered_same_ref [OF wf reg, of k] show "s \<noteq> r" by auto
  next
    assume "s \<noteq> r"
    with that reg wellFormedD(1) [OF wf] show "k \<noteq> nm"
      by (metis map_of_is_SomeI option.inject)
  qed
  then have "filter (\<lambda>(k, s). nm \<noteq> k) (channels m) = filter (\<lambda>(k, s). s \<noteq> r) (channels m)"
    by (intro filter_cong) auto
  then have "map snd (AList.delete nm (channels m)) = filter (\<lambda>s. s \<noteq> r) (map snd (channels m))"
    by (simp add: AList.delete_eq filter_map comp_def case_prod_unfold)
  then show ?thesis by (simp add: getChannels_def deleteChannel_fields(1) [OF wf reg])
qed

lemma getVisibleChannels_deleteChannel:
  assumes wf: "wellFormed m" and reg: "(nm, r) \<in> set (channels m)"
  shows "getVisibleChannels (deleteChannel nm m) =
           filter (\<lambda>s. s \<noteq> r \<and> isVisible m s) (getChannels m)"
proof -
  have "isVisible (deleteChannel nm m) = isVisible m"
    by (rule ext) (rule isVisible_deleteChannel [OF wf reg])
  then show ?thesis
    by (simp add: getVisibleChannels_def getChannels_deleteChannel [OF wf reg] conj_commute)
qed

lemma getVisibleChannels_hide:
  assumes wf: "wellFormed m" and reg: "(nm, r) \<in> set (channels m)"
  shows "getVisibleChannels (hide r m) = filter (\<lambda>s. s \<noteq> r \<and> isVisible m s) (getChannels m)"
proof -
  from wellFormedD(2) [OF wf reg] obtain ch where ch: "heap m r = Some ch"
    "visibilityListeners ch = [r]" by (auto simp: registered_def)
  have "isVisible (setVisibility r False m) = (\<lambda>s. s \<noteq> r \<and> isVisible m s)"
    by (rule ext) (simp add: isVisible_setVisibility [OF ch])
  then show ?thesis
    by (simp add: hide_def getVisibleChannels_def getChannels_def setVisibility_fields(1) [OF ch])
qed

section \<open>The manager: registry, selection and resources\<close>

text \<open>
  C10. After any sequence of \<^verbatim>\<open>getChannel\<close>, \<^verbatim>\<open>deleteChannel\<close>, show and hide commands on
  a fresh manager, the selected channel is undefined or a channel of the channel map that
  is visible.
\<close>

theorem selected_registered_visible:
  "selectedChannel (run cs (init pref)) = None \<or>
   (\<exists>nm r ch. selectedChannel (run cs (init pref)) = Some r \<and>
      (nm, r) \<in> set (channels (run cs (init pref))) \<and>
      heap (run cs (init pref)) r = Some ch \<and> visible ch)"
proof -
  let ?m = "run cs (init pref)"
  have ok: "selectedOk ?m" by (rule wellFormedD(5) [OF wellFormed_reachable])
  show ?thesis
  proof (cases "selectedChannel ?m")
    case None
    then show ?thesis by simp
  next
    case (Some r)
    with ok have "r \<in> set (getChannels ?m)" "isVisible ?m r" by (simp_all add: selectedOk_def)
    then obtain nm ch where "(nm, r) \<in> set (channels ?m)" "heap ?m r = Some ch" "visible ch"
      by (auto simp: getChannels_def isVisible_def split: option.splits)
    with Some show ?thesis by blast
  qed
qed

theorem selected_registered_visible_witness:
  "selectedChannel (run [GetChannel ''a'', GetChannel ''b'', Hide ''a''] (init 1000)) = Some 3 \<and>
   (\<exists>nm ch. (nm, 3) \<in> set (channels (run [GetChannel ''a'', GetChannel ''b'', Hide ''a''] (init 1000))) \<and>
      heap (run [GetChannel ''a'', GetChannel ''b'', Hide ''a''] (init 1000)) 3 = Some ch \<and>
      visible ch)"
proof -
  have "selectedChannel (run [GetChannel ''a'', GetChannel ''b'', Hide ''a''] (init 1000)) = Some 3"
    by code_simp
  with selected_registered_visible [of "[GetChannel ''a'', GetChannel ''b'', Hide ''a'']" 1000]
  show ?thesis by auto
qed

text \<open>
  C5. In a state \<open>m\<close> the manager has reached, for a channel \<open>r\<close> registered as \<open>nm\<close>: showing
  it selects it; hiding it while it is selected selects the first visible channel (none if
  no channel is visible); deleting it while it is selected selects the first visible channel
  that remains; and creating a channel while none is selected selects the new channel.
\<close>

theorem selection_follows_visibility:
  "m = run cs (init pref) \<Longrightarrow>
   ((nm, r) \<in> set (channels m) \<longrightarrow> selectedChannel (show_channel r m) = Some r) \<and>
   ((nm, r) \<in> set (channels m) \<and> selectedChannel m = Some r \<longrightarrow>
      selectedChannel (hide r m) = firstVisibleChannel (hide r m) \<and>
      getVisibleChannels (hide r m) = filter (\<lambda>s. s \<noteq> r \<and> isVisible m s) (getChannels m)) \<and>
   ((nm, r) \<in> set (channels m) \<and> selectedChannel m = Some r \<longrightarrow>
      selectedChannel (deleteChannel nm m) = firstVisibleChannel (deleteChannel nm m) \<and>
      getVisibleChannels (deleteChannel nm m) =
        filter (\<lambda>s. s \<noteq> r \<and> isVisible m s) (getChannels m)) \<and>
   (map_of (channels m) nm = None \<and> selectedChannel m = None \<longrightarrow>
      selectedChannel (snd (getChannel nm m)) = Some (fst (getChannel nm m)))"
proof -
  assume m: "m = run cs (init pref)"
  then have wf: "wellFormed m" by (simp add: wellFormed_reachable)
  have a: "selectedChannel (show_channel r m) = Some r" if reg: "(nm, r) \<in> set (channels m)"
  proof -
    from wellFormedD(2) [OF wf reg] obtain ch where "heap m r = Some ch"
      "visibilityListeners ch = [r]" by (auto simp: registered_def)
    then show ?thesis by (simp add: show_channel_def selectedChannel_setVisibility)
  qed
  have b: "selectedChannel (hide r m) = firstVisibleChannel (hide r m)"
    if reg: "(nm, r) \<in> set (channels m)" and sel: "selectedChannel m = Some r"
  proof -
    from wellFormedD(2) [OF wf reg] obtain ch where "heap m r = Some ch"
      "visibilityListeners ch = [r]" by (auto simp: registered_def)
    with sel show ?thesis by (simp add: hide_def selectedChannel_setVisibility)
  qed
  have c: "selectedChannel (deleteChannel nm m) = firstVisibleChannel (deleteChannel nm m)"
    if reg: "(nm, r) \<in> set (channels m)" and sel: "selectedChannel m = Some r"
    using sel by (simp add: selectedChannel_deleteChannel [OF wf reg])
  have d: "selectedChannel (snd (getChannel nm m)) = Some (fst (getChannel nm m))"
    if new: "map_of (channels m) nm = None" and sel: "selectedChannel m = None"
  proof -
    from new wf have "unregistered m nm" by (simp add: wellFormedD(3))
    with new sel show ?thesis by (simp add: getChannel_new selectedChannel_def)
  qed
  from a b c d getVisibleChannels_hide [OF wf] getVisibleChannels_deleteChannel [OF wf]
  show ?thesis by blast
qed

theorem selection_follows_visibility_witness:
  "(''a'', 1) \<in> set (channels (run [GetChannel ''a'', GetChannel ''b''] (init 1000))) \<and>
   selectedChannel (run [GetChannel ''a'', GetChannel ''b''] (init 1000)) = Some 1 \<and>
   selectedChannel (show_channel 1 (run [GetChannel ''a'', GetChannel ''b''] (init 1000))) = Some 1 \<and>
   selectedChannel (hide 1 (run [GetChannel ''a'', GetChannel ''b''] (init 1000))) = Some 3 \<and>
   selectedChannel (deleteChannel ''a'' (run [GetChannel ''a'', GetChannel ''b''] (init 1000))) = Some 3 \<and>
   map_of (channels (run [] (init 1000))) ''a'' = None \<and>
   selectedChannel (run [] (init 1000)) = None \<and>
   selectedChannel (snd (getChannel ''a'' (run [] (init 1000)))) =
     Some (fst (getChannel ''a'' (run [] (init 1000))))"
proof -
  let ?m = "run [GetChannel ''a'', GetChannel ''b''] (init 1000)"
  have r: "(''a'', 1) \<in> set (channels ?m)" by code_simp
  have s: "selectedChannel ?m = Some 1" by code_simp
  have h: "firstVisibleChannel (hide 1 ?m) = Some 3" by code_simp
  have d: "firstVisibleChannel (deleteChannel ''a'' ?m) = Some 3" by code_simp
  have n: "map_of (channels (run [] (init 1000))) ''a'' = None" by code_simp
  have e: "selectedChannel (run [] (init 1000)) = None" by code_simp
  from selection_follows_visibility [OF refl, of "''a''" 1 "[GetChannel ''a'', GetChannel ''b'']" 1000]
    selection_follows_visibility [OF refl, of "''a''" 1 "[]" 1000] r s h d n e
  show ?thesis by simp
qed

text \<open>
  C6. In a state \<open>m\<close> the manager has reached, \<^verbatim>\<open>getChannel(nm)\<close> returns the channel \<open>r\<close>
  and the state \<open>m'\<close>. A second call returns the same \<open>r\<close> and leaves \<open>m'\<close> as it is, and so does
  every later call as long as \<open>nm\<close> is not deleted. If \<open>nm\<close> was registered the first call
  changed nothing; if it was not, \<open>r\<close> is a new object, the channel map and the resource map
  each gain one entry and \<^verbatim>\<open>onChannelAdded\<close> fires once. A channel of another name is
  another object.
\<close>

theorem getChannel_idempotent:
  "m = run cs (init pref) \<Longrightarrow> getChannel nm m = (r, m') \<Longrightarrow>
   getChannel nm m' = (r, m') \<and>
   (map_of (channels m) nm \<noteq> None \<longrightarrow> map_of (channels m) nm = Some r \<and> m' = m) \<and>
   (map_of (channels m) nm = None \<longrightarrow>
      heap m r = None \<and>
      channels m' = channels m @ [(nm, r)] \<and>
      resources m' =
        resources m @ [(toString (OutputUri_create nm),
                        createResource (OutputUri_create nm) (nextRef m))] \<and>
      fired m' = fired m @ [ChannelAdded nm] @
        (if selectedChannel m = None then [SelectedChannelChanged (Some nm)] else [])) \<and>
   (DeleteChannel nm \<notin> set cs' \<longrightarrow> getChannel nm (run cs' m') = (r, run cs' m')) \<and>
   (nm' \<noteq> nm \<longrightarrow> fst (getChannel nm' m') \<noteq> r)"
proof -
  assume m: "m = run cs (init pref)" and g: "getChannel nm m = (r, m')"
  from m have wf: "wellFormed m" by (simp add: wellFormed_reachable)
  from wellFormed_getChannel [OF wf, of nm] g have wf': "wellFormed m'" by simp
  from getChannel_registered [OF wf, of nm] g have reg: "(nm, r) \<in> set (channels m')" by simp
  have r': "map_of (channels m') nm = Some r" by (rule map_of_registered [OF wf' reg])
  have 1: "getChannel nm m' = (r, m')" by (rule getChannel_existing [OF r'])
  have 2: "map_of (channels m) nm = Some r \<and> m' = m" if "map_of (channels m) nm \<noteq> None"
    using that g by (auto simp: getChannel_existing)
  have 3: "heap m r = None \<and> channels m' = channels m @ [(nm, r)] \<and>
      resources m' =
        resources m @ [(toString (OutputUri_create nm),
                        createResource (OutputUri_create nm) (nextRef m))] \<and>
      fired m' = fired m @ [ChannelAdded nm] @
        (if selectedChannel m = None then [SelectedChannelChanged (Some nm)] else [])"
    if new: "map_of (channels m) nm = None"
  proof -
    from new wf have u: "unregistered m nm" by (simp add: wellFormedD(3))
    then have res: "map_of (resources m) (toString (OutputUri_create nm)) = None"
      by (simp add: unregistered_def)
    from getChannel_new [OF new u] g have r: "r = nextRef m + 1" and m': "m' = created nm m"
      by simp_all
    from getChannel_fresh_ref(2) [OF wf new] g have "heap m r = None" by simp
    then show ?thesis
      by (simp add: m' r update_fresh [OF new] update_fresh [OF res])
  qed
  have 4: "getChannel nm (run cs' m') = (r, run cs' m')" if "DeleteChannel nm \<notin> set cs'"
    by (rule getChannel_existing [OF run_keeps_channel [OF wf' that r']])
  have 5: "fst (getChannel nm' m') \<noteq> r" if "nm' \<noteq> nm"
    using getChannel_distinct [OF wf that] g by simp
  from 1 2 3 4 5 show ?thesis by blast
qed

theorem getChannel_idempotent_witness:
  "getChannel ''b'' (run [GetChannel ''a''] (init 1000)) =
     (3, created ''b'' (run [GetChannel ''a''] (init 1000))) \<and>
   map_of (channels (run [GetChannel ''a''] (init 1000))) ''b'' = None \<and>
   getChannel ''b'' (created ''b'' (run [GetChannel ''a''] (init 1000))) =
     (3, created ''b'' (run [GetChannel ''a''] (init 1000))) \<and>
   DeleteChannel ''b'' \<notin> set [Hide ''b'', DeleteChannel ''a''] \<and>
   fst (getChannel ''b'' (run [Hide ''b'', DeleteChannel ''a'']
          (created ''b'' (run [GetChannel ''a''] (init 1000))))) = 3 \<and>
   fst (getChannel ''a'' (created ''b'' (run [GetChannel ''a''] (init 1000)))) \<noteq> 3 \<and>
   map_of (channels (run [GetChannel ''a''] (init 1000))) ''a'' \<noteq> None \<and>
   getChannel ''a'' (run [GetChannel ''a''] (init 1000)) = (1, run [GetChannel ''a''] (init 1000))"
proof -
  let ?m = "run [GetChannel ''a''] (init 1000)"
  have new: "map_of (channels ?m) ''b'' = None" by code_simp
  have u: "unregistered ?m ''b''" by code_simp
  have "nextRef ?m = 2" by code_simp
  with getChannel_new [OF new u] have g: "getChannel ''b'' ?m = (3, created ''b'' ?m)"
    by simp
  have d: "DeleteChannel ''b'' \<notin> set [Hide ''b'', DeleteChannel ''a'']" by simp
  have old: "map_of (channels ?m) ''a'' = Some 1" by code_simp
  then have g': "getChannel ''a'' ?m = (1, ?m)" by (rule getChannel_existing)
  from getChannel_idempotent [OF refl g, of "[Hide ''b'', DeleteChannel ''a'']" "''a''"]
    getChannel_idempotent [OF refl g', of "[]" "''b''"] new g d old g'
  show ?thesis by simp
qed

text \<open>
  C8. \<^verbatim>\<open>resolve(uri)\<close> throws exactly when the URI is not of the output scheme or the
  resource map has no entry for it, and returns the entry otherwise. In a state the manager
  has reached, the entry for the URI of a registered channel is the resource of that channel,
  and a name without a channel has no entry.
\<close>

theorem resolve_throws_iff:
  "((\<exists>e. resolve u m = Inl e) \<longleftrightarrow>
      (\<not> OutputUri_is u \<or> map_of (resources m) (toString u) = None)) \<and>
   (resolve u m = Inr res \<longleftrightarrow>
      OutputUri_is u \<and> map_of (resources m) (toString u) = Some res) \<and>
   (m = run cs (init pref) \<and> (nm, r) \<in> set (channels m) \<longrightarrow>
      (\<exists>ch. heap m r = Some ch \<and> uri ch = OutputUri_create nm \<and>
            resolve (OutputUri_create nm) m = Inr (resource ch))) \<and>
   (m = run cs (init pref) \<and> map_of (channels m) nm = None \<longrightarrow>
      resolve (OutputUri_create nm) m = Inl NoOutputResource)"
proof -
  have 1: "(\<exists>e. resolve u m = Inl e) \<longleftrightarrow>
      (\<not> OutputUri_is u \<or> map_of (resources m) (toString u) = None)"
    by (auto simp: resolve_def split: option.splits)
  have 2: "resolve u m = Inr res \<longleftrightarrow>
      OutputUri_is u \<and> map_of (resources m) (toString u) = Some res"
    by (auto simp: resolve_def split: option.splits)
  have is_create: "OutputUri_is (OutputUri_create nm)"
    by (simp add: OutputUri_is_def)
  have 3: "\<exists>ch. heap m r = Some ch \<and> uri ch = OutputUri_create nm \<and>
            resolve (OutputUri_create nm) m = Inr (resource ch)"
    if "m = run cs (init pref)" "(nm, r) \<in> set (channels m)"
  proof -
    from that have "registered m nm r"
      using wellFormedD(2) [OF wellFormed_reachable] by simp
    then show ?thesis by (auto simp: registered_def resolve_def is_create)
  qed
  have 4: "resolve (OutputUri_create nm) m = Inl NoOutputResource"
    if "m = run cs (init pref)" "map_of (channels m) nm = None"
  proof -
    from that have "unregistered m nm"
      using wellFormedD(3) [OF wellFormed_reachable] by simp
    then show ?thesis by (simp add: unregistered_def resolve_def is_create)
  qed
  from 1 2 3 4 show ?thesis by blast
qed

theorem resolve_throws_iff_witness:
  "\<not> OutputUri_is \<lparr>scheme = ''file'', path = ''a''\<rparr> \<and>
   (\<exists>e. resolve \<lparr>scheme = ''file'', path = ''a''\<rparr> (run [GetChannel ''a''] (init 1000)) = Inl e) \<and>
   (''a'', 1) \<in> set (channels (run [GetChannel ''a''] (init 1000))) \<and>
   resolve (OutputUri_create ''a'') (run [GetChannel ''a''] (init 1000)) =
     Inr \<lparr>rid = 0, uri_res = OutputUri_create ''a''\<rparr> \<and>
   map_of (channels (run [GetChannel ''a''] (init 1000))) ''b'' = None \<and>
   resolve (OutputUri_create ''b'') (run [GetChannel ''a''] (init 1000)) = Inl NoOutputResource"
proof -
  let ?m = "run [GetChannel ''a''] (init 1000)"
  have a: "\<not> OutputUri_is \<lparr>scheme = ''file'', path = ''a''\<rparr>" by code_simp
  have b: "(''a'', 1) \<in> set (channels ?m)" by code_simp
  have c: "map_of (channels ?m) ''b'' = None" by code_simp
  have d: "resolve (OutputUri_create ''a'') ?m = Inr \<lparr>rid = 0, uri_res = OutputUri_create ''a''\<rparr>"
    by code_simp
  from resolve_throws_iff [of "\<lparr>scheme = ''file'', path = ''a''\<rparr>" ?m _ "[GetChannel ''a'']"
      1000 "''b''" 1] a b c d
  show ?thesis by simp
qed

text \<open>
  C9. \<^verbatim>\<open>deleteChannel\<close> of a name without a channel only writes the warning to the console.
  In a state the manager has reached, deleting a registered channel removes it from the
  channel map, empties its disposable collection (the resource leaves the resource map, the
  channel loses its listeners and decoration ids) and fires \<^verbatim>\<open>onChannelDeleted\<close> once.
\<close>

theorem deleteChannel_effects:
  "(map_of (channels m) nm = None \<longrightarrow>
      deleteChannel nm m = m\<lparr>console := console m @ [deleteWarning nm]\<rparr>) \<and>
   (m = run cs (init pref) \<and> (nm, r) \<in> set (channels m) \<longrightarrow>
      channels (deleteChannel nm m) = AList.delete nm (channels m) \<and>
      map_of (channels (deleteChannel nm m)) nm = None \<and>
      map_of (toDisposeOnChannelDeletion (deleteChannel nm m)) nm = Some [] \<and>
      resources (deleteChannel nm m) =
        AList.delete (toString (OutputUri_create nm)) (resources m) \<and>
      map_of (resources (deleteChannel nm m)) (toString (OutputUri_create nm)) = None \<and>
      (\<exists>ch. heap m r = Some ch \<and>
            heap (deleteChannel nm m) r =
              Some (ch\<lparr>decorationIds := [], visibilityListeners := []\<rparr>)) \<and>
      console (deleteChannel nm m) = console m \<and>
      (\<exists>es. fired (deleteChannel nm m) = fired m @ ChannelDeleted nm # es \<and>
            ChannelDeleted nm \<notin> set es))"
proof -
  have 1: "map_of (channels m) nm = None \<longrightarrow>
      deleteChannel nm m = m\<lparr>console := console m @ [deleteWarning nm]\<rparr>"
    by (simp add: deleteChannel_missing)
  have 2: "channels (deleteChannel nm m) = AList.delete nm (channels m) \<and>
      map_of (channels (deleteChannel nm m)) nm = None \<and>
      map_of (toDisposeOnChannelDeletion (deleteChannel nm m)) nm = Some [] \<and>
      resources (deleteChannel nm m) =
        AList.delete (toString (OutputUri_create nm)) (resources m) \<and>
      map_of (resources (deleteChannel nm m)) (toString (OutputUri_create nm)) = None \<and>
      (\<exists>ch. heap m r = Some ch \<and>
            heap (deleteChannel nm m) r =
              Some (ch\<lparr>decorationIds := [], visibilityListeners := []\<rparr>)) \<and>
      console (deleteChannel nm m) = console m \<and>
      (\<exists>es. fired (deleteChannel nm m) = fired m @ ChannelDeleted nm # es \<and>
            ChannelDeleted nm \<notin> set es)"
    if m: "m = run cs (init pref)" and reg: "(nm, r) \<in> set (channels m)"
  proof -
    from m have wf: "wellFormed m" by (simp add: wellFormed_reachable)
    note f = deleteChannel_fields [OF wf reg]
    from wellFormedD(2) [OF wf reg] obtain ch where ch: "heap m r = Some ch"
      by (auto simp: registered_def)
    from fired_onChannelDeleted [of nm "deleted nm r m"] obtain es where
      "fired (deleteChannel nm m) = fired m @ ChannelDeleted nm # es" "ChannelDeleted nm \<notin> set es"
      by (auto simp: deleteChannel_registered [OF wf reg] deleted_def)
    with ch show ?thesis
      by (simp add: f delete_conv' update_conv')
  qed
  show ?thesis
  proof (rule conjI [OF 1], rule impI, elim conjE)
    assume "m = run cs (init pref)" "(nm, r) \<in> set (channels m)"
    then show "channels (deleteChannel nm m) = AList.delete nm (channels m) \<and>
      map_of (channels (deleteChannel nm m)) nm = None \<and>
      map_of (toDisposeOnChannelDeletion (deleteChannel nm m)) nm = Some [] \<and>
      resources (deleteChannel nm m) =
        AList.delete (toString (OutputUri_create nm)) (resources m) \<and>
      map_of (resources (deleteChannel nm m)) (toString (OutputUri_create nm)) = None \<and>
      (\<exists>ch. heap m r = Some ch \<and>
            heap (deleteChannel nm m) r =
              Some (ch\<lparr>decorationIds := [], visibilityListeners := []\<rparr>)) \<and>
      console (deleteChannel nm m) = console m \<and>
      (\<exists>es. fired (deleteChannel nm m) = fired m @ ChannelDeleted nm # es \<and>
            ChannelDeleted nm \<notin> set es)"
      by (rule 2)
  qed
qed

theorem deleteChannel_effects_witness:
  "map_of (channels (run [GetChannel ''a''] (init 1000))) ''b'' = None \<and>
   fired (deleteChannel ''b'' (run [GetChannel ''a''] (init 1000))) =
     fired (run [GetChannel ''a''] (init 1000)) \<and>
   (''a'', 1) \<in> set (channels (run [GetChannel ''a''] (init 1000))) \<and>
   channels (deleteChannel ''a'' (run [GetChannel ''a''] (init 1000))) = [] \<and>
   resources (deleteChannel ''a'' (run [GetChannel ''a''] (init 1000))) = []"
proof -
  let ?m = "run [GetChannel ''a''] (init 1000)"
  have a: "map_of (channels ?m) ''b'' = None" by code_simp
  have b: "(''a'', 1) \<in> set (channels ?m)" by code_simp
  have c: "AList.delete ''a'' (channels ?m) = []" by code_simp
  have d: "AList.delete (toString (OutputUri_create ''a'')) (resources ?m) = []" by code_simp
  from deleteChannel_effects [of ?m "''b''" "[GetChannel ''a'']" 1000 1]
    deleteChannel_effects [of ?m "''a''" "[GetChannel ''a'']" 1000 1] a b c d
  show ?thesis by simp
qed

section \<open>Properties of the quick pick\<close>

lemma mset_insert_by [simp]: "mset (insert_by cmp x ys) = add_mset x (mset ys)"
  by (induction ys) auto

lemma mset_foldl_insert_by:
  "mset (foldl (\<lambda>acc x. insert_by cmp x acc) acc xs) = mset acc + mset xs"
  by (induction xs arbitrary: acc) auto

lemma mset_sort_by [simp]: "mset (sort_by cmp xs) = mset xs"
  by (simp add: sort_by_def mset_foldl_insert_by)

lemma set_insert_by [simp]: "set (insert_by cmp x ys) = insert x (set ys)"
  by (induction ys) auto

lemma sorted_insert_by:
  assumes o: "ordering cmp" and s: "sorted_wrt (\<lambda>a b. cmp a b \<le> 0) ys"
  shows "sorted_wrt (\<lambda>a b. cmp a b \<le> 0) (insert_by cmp x ys)"
  using s
proof (induction ys)
  case Nil
  then show ?case by simp
next
  case (Cons y ys)
  from o have tot: "\<And>a b. cmp a b < 0 \<or> cmp b a \<le> 0"
    and tr: "\<And>a b c. cmp a b \<le> 0 \<Longrightarrow> cmp b c \<le> 0 \<Longrightarrow> cmp a c \<le> 0"
    by (auto simp: ordering_def)
  show ?case
  proof (cases "cmp x y < 0")
    case True
    then have xy: "cmp x y \<le> 0" by simp
    have "cmp x z \<le> 0" if "z \<in> set ys" for z
      using tr [OF xy] Cons.prems that by auto
    with True xy Cons.prems show ?thesis by auto
  next
    case False
    with tot [of x y] have "cmp y x \<le> 0" by simp
    with False Cons show ?thesis by auto
  qed
qed

lemma sorted_foldl_insert_by:
  "ordering cmp \<Longrightarrow> sorted_wrt (\<lambda>a b. cmp a b \<le> 0) acc \<Longrightarrow>
   sorted_wrt (\<lambda>a b. cmp a b \<le> 0) (foldl (\<lambda>acc x. insert_by cmp x acc) acc xs)"
  by (induction xs arbitrary: acc) (simp_all add: sorted_insert_by)

lemma sorted_sort_by:
  "ordering cmp \<Longrightarrow> sorted_wrt (\<lambda>a b. cmp a b \<le> 0) (sort_by cmp xs)"
  by (simp add: sort_by_def sorted_foldl_insert_by)

lemma compareChannels_le:
  "compareChannels lc lower a b \<le> 0 \<longleftrightarrow>
     (visible a \<and> \<not> visible b) \<or>
     (visible a = visible b \<and> lc (lower (name a)) (lower (name b)) \<le> 0)"
  by (auto simp: compareChannels_def)

lemma compareChannels_less:
  "compareChannels lc lower a b < 0 \<longleftrightarrow>
     (visible a \<and> \<not> visible b) \<or>
     (visible a = visible b \<and> lc (lower (name a)) (lower (name b)) < 0)"
  by (auto simp: compareChannels_def)

lemma ordering_compareChannels:
  assumes "ordering lc"
  shows "ordering (compareChannels lc lower)"
proof -
  from assms have total: "\<And>x y. lc x y < 0 \<or> lc y x \<le> 0"
    and trans: "\<And>x y z. lc x y \<le> 0 \<Longrightarrow> lc y z \<le> 0 \<Longrightarrow> lc x z \<le> 0"
    unfolding ordering_def by blast+
  have "compareChannels lc lower a b < 0 \<or> compareChannels lc lower b a \<le> 0" for a b
    using total [of "lower (name a)" "lower (name b)"]
    unfolding compareChannels_le compareChannels_less by auto
  moreover have "compareChannels lc lower a c \<le> 0"
    if "compareChannels lc lower a b \<le> 0" "compareChannels lc lower b c \<le> 0" for a b c
    using that trans [of "lower (name a)" "lower (name b)" "lower (name c)"]
    unfolding compareChannels_le by auto
  ultimately show ?thesis unfolding ordering_def by blast
qed

lemma ordering_exCompare: "ordering exCompare"
  unfolding ordering_def exCompare_def by auto

lemma sorted_partition:
  assumes "sorted_wrt R xs" and "\<And>a b. R a b \<Longrightarrow> P b \<Longrightarrow> P a"
  shows "xs = filter P xs @ filter (\<lambda>x. \<not> P x) xs"
  using assms(1)
proof (induction xs)
  case Nil
  then show ?case by simp
next
  case (Cons x xs)
  show ?case
  proof (cases "P x")
    case True
    with Cons show ?thesis by simp
  next
    case False
    with Cons.prems assms(2) have "\<forall>y \<in> set xs. \<not> P y" by auto
    then have "filter P xs = []" "filter (\<lambda>x. \<not> P x) xs = xs" by (simp_all add: filter_empty_conv)
    with False show ?thesis by simp
  qed
qed

lemma pick_loop_visible:
  "\<forall>c \<in> set xs. visible c \<Longrightarrow> pick_loop (Some p) (xs @ ys) =
     items_of xs @ pick_loop (Some (last (p # xs))) ys"
  by (induction xs arbitrary: p) (auto simp: items_of_def)

lemma pick_loop_hidden:
  "\<forall>c \<in> set ys. \<not> visible c \<Longrightarrow> pick_loop (Some p) ys =
     (if visible p \<and> ys \<noteq> [] then [Separator ''blabla''] else []) @ items_of ys"
  by (induction ys arbitrary: p) (auto simp: items_of_def)

lemma pick_loop_sorted:
  assumes v: "\<forall>c \<in> set vis. visible c" and h: "\<forall>c \<in> set hid. \<not> visible c"
  shows "pick_loop None (vis @ hid) =
     (if vis @ hid = [] then []
      else Separator ''blabla'' # items_of vis
             @ (if vis \<noteq> [] \<and> hid \<noteq> [] then [Separator ''blabla''] else []) @ items_of hid)"
proof (cases vis)
  case Nil
  show ?thesis
  proof (cases hid)
    case Nil
    with \<open>vis = []\<close> show ?thesis by simp
  next
    case (Cons c cs)
    with h have "\<not> visible c" "\<forall>c \<in> set cs. \<not> visible c" by simp_all
    with Cons \<open>vis = []\<close> show ?thesis
      by (simp add: pick_loop_hidden items_of_def)
  qed
next
  case (Cons c cs)
  with v have c: "visible c" and cs: "\<forall>c \<in> set cs. visible c" by simp_all
  from v Cons have l: "visible (last (c # cs))"
    using last_in_set [of "c # cs"] by blast
  have "pick_loop None (vis @ hid) =
      Separator ''blabla'' # Item (name c) c # pick_loop (Some c) (cs @ hid)"
    by (simp add: Cons)
  also have "pick_loop (Some c) (cs @ hid) = items_of cs @ pick_loop (Some (last (c # cs))) hid"
    by (rule pick_loop_visible [OF cs])
  also have "pick_loop (Some (last (c # cs))) hid =
      (if hid \<noteq> [] then [Separator ''blabla''] else []) @ items_of hid"
    using l by (simp add: pick_loop_hidden [OF h])
  finally show ?thesis by (simp add: Cons items_of_def)
qed

section \<open>The quick pick\<close>

text \<open>
  C7. Whatever the case mapping \<open>toLocaleLowerCase\<close> of the runtime is, and for every
  collation \<open>localeCompare\<close> of the runtime that orders (is total and transitive): the list
  that \<^verbatim>\<open>pick\<close> shows is a rearrangement of the channels with all visible channels before
  all hidden ones, each group in the order that the collation gives to the lower-case names; for
  a list that is not empty it starts with a separator and has one more separator where the
  hidden channels begin behind visible ones.
\<close>

theorem pick_order:
  assumes "ordering localeCompare"
  shows
  "(let sorted = sort_by (compareChannels localeCompare toLocaleLowerCase) chans;
        vis = filter visible sorted;
        hid = filter (\<lambda>c. \<not> visible c) sorted
    in mset sorted = mset chans \<and>
       sorted = vis @ hid \<and>
       sorted_wrt (\<lambda>a b. localeCompare (toLocaleLowerCase (name a))
                                       (toLocaleLowerCase (name b)) \<le> 0) vis \<and>
       sorted_wrt (\<lambda>a b. localeCompare (toLocaleLowerCase (name a))
                                       (toLocaleLowerCase (name b)) \<le> 0) hid \<and>
       pick_items localeCompare toLocaleLowerCase chans =
         (if chans = [] then []
          else Separator ''blabla'' # items_of vis
                 @ (if vis \<noteq> [] \<and> hid \<noteq> [] then [Separator ''blabla''] else [])
                 @ items_of hid))"
proof -
  let ?cmp = "compareChannels localeCompare toLocaleLowerCase"
  let ?byName = "\<lambda>a b. localeCompare (toLocaleLowerCase (name a))
                                      (toLocaleLowerCase (name b)) \<le> 0"
  let ?sorted = "sort_by ?cmp chans"
  let ?vis = "filter visible ?sorted"
  let ?hid = "filter (\<lambda>c. \<not> visible c) ?sorted"
  have s: "sorted_wrt (\<lambda>a b. ?cmp a b \<le> 0) ?sorted"
    by (rule sorted_sort_by [OF ordering_compareChannels [OF assms]])
  have 1: "mset ?sorted = mset chans" by simp
  have 2: "?sorted = ?vis @ ?hid"
    by (rule sorted_partition [OF s]) (auto simp: compareChannels_le)
  have "sorted_wrt (\<lambda>a b. ?cmp a b \<le> 0) ?vis"
    by (rule sorted_wrt_filter [OF s])
  then have 3: "sorted_wrt ?byName ?vis"
    by (rule sorted_wrt_mono_rel [rotated]) (auto simp: compareChannels_le)
  have "sorted_wrt (\<lambda>a b. ?cmp a b \<le> 0) ?hid"
    by (rule sorted_wrt_filter [OF s])
  then have 4: "sorted_wrt ?byName ?hid"
    by (rule sorted_wrt_mono_rel [rotated]) (auto simp: compareChannels_le)
  have e: "?vis @ ?hid = [] \<longleftrightarrow> chans = []"
    using 1 2 by (metis mset_zero_iff)
  have "pick_items localeCompare toLocaleLowerCase chans = pick_loop None (?vis @ ?hid)"
    using 2 by (simp add: pick_items_def)
  also have "\<dots> = (if ?vis @ ?hid = [] then []
          else Separator ''blabla'' # items_of ?vis
                 @ (if ?vis \<noteq> [] \<and> ?hid \<noteq> [] then [Separator ''blabla''] else [])
                 @ items_of ?hid)"
    by (rule pick_loop_sorted) simp_all
  finally have 5: "pick_items localeCompare toLocaleLowerCase chans =
         (if chans = [] then []
          else Separator ''blabla'' # items_of ?vis
                 @ (if ?vis \<noteq> [] \<and> ?hid \<noteq> [] then [Separator ''blabla''] else [])
                 @ items_of ?hid)"
    unfolding e .
  from 1 2 3 4 5 show ?thesis unfolding Let_def by blast
qed

theorem pick_order_witness:
  "pick_items exCompare exLower
     [exNamed ''b'' True, exNamed ''A'' False, exNamed ''a'' True, exNamed ''C'' True] =
     [Separator ''blabla'', Item ''a'' (exNamed ''a'' True), Item ''b'' (exNamed ''b'' True),
      Item ''C'' (exNamed ''C'' True), Separator ''blabla'', Item ''A'' (exNamed ''A'' False)]"
proof -
  let ?chans = "[exNamed ''b'' True, exNamed ''A'' False, exNamed ''a'' True, exNamed ''C'' True]"
  have v: "filter visible (sort_by (compareChannels exCompare exLower) ?chans) =
      [exNamed ''a'' True, exNamed ''b'' True, exNamed ''C'' True]"
    by code_simp
  have h: "filter (\<lambda>c. \<not> visible c) (sort_by (compareChannels exCompare exLower) ?chans) =
      [exNamed ''A'' False]"
    by code_simp
  have n: "map name [exNamed ''a'' True, exNamed ''b'' True, exNamed ''C'' True,
      exNamed ''A'' False] = [''a'', ''b'', ''C'', ''A'']"
    by code_simp
  from pick_order [of exCompare exLower ?chans, OF ordering_exCompare] n show ?thesis
    unfolding Let_def v h by (simp add: items_of_def)
qed

end
